theory Spec2Isabelle
  imports Main "HOL-Library.Word"
begin

section \<open>The environment of the mapper: random bytes and the allocator\<close>

text \<open>
  \<^verbatim>\<open>anon-uint64.c\<close> reads two things from outside: the bytes that OpenSSL's
  \<^verbatim>\<open>RAND_bytes\<close> leaves in the eight-byte buffer, and whether \<^verbatim>\<open>malloc\<close> hands out
  memory. Both are oracles of the world: \<open>rand_src w n\<close> is the 64-bit value found in the
  buffer after the \<open>n\<close>-th call of \<^verbatim>\<open>RAND_bytes\<close> (the buffer is zeroed before the
  call, so a failed call is the value 0), \<open>heap_src w n\<close> tells whether the \<open>n\<close>-th
  \<^verbatim>\<open>malloc\<close> succeeds. The positions count the calls made so far.
\<close>

type_synonym uint64_t = "64 word"

record world =
  rand_src :: "nat \<Rightarrow> uint64_t"
  rand_pos :: nat
  heap_src :: "nat \<Rightarrow> bool"
  heap_pos :: nat

definition RAND_bytes :: "world \<Rightarrow> uint64_t \<times> world" where
  "RAND_bytes w = (rand_src w (rand_pos w), w\<lparr>rand_pos := Suc (rand_pos w)\<rparr>)"

definition malloc :: "world \<Rightarrow> bool \<times> world" where
  "malloc w = (heap_src w (heap_pos w), w\<lparr>heap_pos := Suc (heap_pos w)\<rparr>)"

section \<open>The mapper object\<close>

datatype anon_uint64_state_t = INIT | NON_LEX | LEX

text \<open>
  \<^verbatim>\<open>struct _anon_uint64\<close>. The linked list of \<^verbatim>\<open>struct node\<close> is the list of its
  \<^verbatim>\<open>num\<close> fields from the head on. The OpenSSL hash table of \<^verbatim>\<open>struct hash_node\<close>,
  hashed and compared on \<^verbatim>\<open>num\<close> alone, is the finite map from \<^verbatim>\<open>num\<close> to
  \<^verbatim>\<open>hash\<close>: \<^verbatim>\<open>lh_insert\<close> stores (replacing an entry of the same key) and
  \<^verbatim>\<open>lh_retrieve\<close> looks up. The allocations the table makes for itself are taken to
  succeed.
\<close>

record anon_uint64 =
  hash_table :: "uint64_t \<rightharpoonup> uint64_t"
  list_u64 :: "uint64_t list"
  state :: anon_uint64_state_t
  lower :: uint64_t
  upper :: uint64_t
  range_u64 :: uint64_t

text \<open>
  What stops the process: a failed \<^verbatim>\<open>assert\<close> (assertions are compiled in, that is,
  \<^verbatim>\<open>NDEBUG\<close> is not defined) and the undefined behaviours the code can run into.
\<close>

datatype error =
    Lower_above_upper        \<comment> \<open>\<^verbatim>\<open>assert(lower <= upper)\<close> in \<^verbatim>\<open>anon_uint64_new\<close>\<close>
  | Mode_conflict            \<comment> \<open>\<^verbatim>\<open>assert(a->state == INIT)\<close> in \<^verbatim>\<open>anon_uint64_set_state\<close>\<close>
  | Too_many_numbers         \<comment> \<open>\<^verbatim>\<open>assert(0)\<close> after "more numbers to anonymize than could be fitted"\<close>
  | Out_of_memory            \<comment> \<open>\<^verbatim>\<open>assert(tmp >= 0)\<close>, \<^verbatim>\<open>assert(node)\<close>, \<^verbatim>\<open>assert(p)\<close> after \<^verbatim>\<open>malloc\<close>\<close>
  | Not_marked               \<comment> \<open>\<^verbatim>\<open>assert(p)\<close> in \<^verbatim>\<open>anon_uint64_map_lex\<close>\<close>
  | Division_by_zero         \<comment> \<open>\<^verbatim>\<open>*anum %= a->range\<close> with \<^verbatim>\<open>a->range == 0\<close>\<close>
  | Null_dereference         \<comment> \<open>\<^verbatim>\<open>q->num\<close> with \<^verbatim>\<open>q == NULL\<close>\<close>
  | Signed_overflow          \<comment> \<open>\<^verbatim>\<open>count++\<close> with \<^verbatim>\<open>count == INT_MAX\<close>\<close>

section \<open>The sorted list\<close>

text \<open>
  \<^verbatim>\<open>list_insert\<close>: walk the list while \<^verbatim>\<open>num\<close> is below the node's number; return 1
  at an equal node; otherwise allocate a node and link it in front of the first smaller
  node (or at the end). A failed allocation returns -1 and leaves the list as it was.
\<close>

fun list_insert :: "uint64_t list \<Rightarrow> uint64_t \<Rightarrow> world \<Rightarrow> int \<times> uint64_t list \<times> world" where
  "list_insert [] num w =
     (case malloc w of (n, w') \<Rightarrow> if \<not> n then (- 1, [], w') else (0, [num], w'))"
| "list_insert (p # ps) num w =
     (if num = p then (1, p # ps, w)
      else if num > p then
        (case malloc w of (n, w') \<Rightarrow> if \<not> n then (- 1, p # ps, w') else (0, num # p # ps, w'))
      else (case list_insert ps num w of (r, ps', w') \<Rightarrow> (r, p # ps', w')))"

text \<open>\<^verbatim>\<open>generate_random_number\<close>: a random number between \<^verbatim>\<open>a->lower\<close> and \<^verbatim>\<open>a->upper\<close>.\<close>

definition generate_random_number :: "anon_uint64 \<Rightarrow> world \<Rightarrow> error + uint64_t \<times> world" where
  "generate_random_number a w =
     (case RAND_bytes w of (anum, w') \<Rightarrow>
        if range_u64 a = 0 then Inl Division_by_zero
        else Inr (anum mod range_u64 a + lower a, w'))"

section \<open>State changes\<close>

text \<open>
  The \<^verbatim>\<open>do ... while (list_insert(&hashlist,anum)==1)\<close> loop of the \<^verbatim>\<open>LEX\<close> case:
  draw until the number is not a duplicate. The loop also ends when the insertion returns
  -1. A loop that never ends is the value \<open>None\<close>.
\<close>

partial_function (option) lex_draw ::
  "anon_uint64 \<Rightarrow> uint64_t list \<Rightarrow> world \<Rightarrow> (error + uint64_t list \<times> world) option" where
  "lex_draw a hashlist w =
     (case generate_random_number a w of
        Inl e \<Rightarrow> Some (Inl e)
      | Inr (anum, w1) \<Rightarrow>
          (case list_insert hashlist anum w1 of (r, hashlist', w2) \<Rightarrow>
             if r = 1 then lex_draw a hashlist' w2 else Some (Inr (hashlist', w2))))"

definition INT_MAX :: int where
  "INT_MAX = 2147483647"

text \<open>
  The first loop of the \<^verbatim>\<open>LEX\<close> case, over the nodes \<open>ps\<close> of \<^verbatim>\<open>a->list\<close> still to
  visit: count the node, compare the count (an \<^verbatim>\<open>int\<close>, converted to
  \<^verbatim>\<open>uint64_t\<close>) with \<^verbatim>\<open>a->upper - a->lower + 1\<close>, draw a fresh number.
\<close>

fun lex_populate ::
  "anon_uint64 \<Rightarrow> uint64_t list \<Rightarrow> int \<Rightarrow> uint64_t list \<Rightarrow> world
     \<Rightarrow> (error + uint64_t list \<times> world) option" where
  "lex_populate a [] count hashlist w = Some (Inr (hashlist, w))"
| "lex_populate a (p # ps) count hashlist w =
     (if count = INT_MAX then Some (Inl Signed_overflow)
      else if (word_of_int (count + 1) :: uint64_t) > upper a - lower a + 1
        then Some (Inl Too_many_numbers)
      else (case lex_draw a hashlist w of
              None \<Rightarrow> None
            | Some (Inl e) \<Rightarrow> Some (Inl e)
            | Some (Inr (hashlist', w')) \<Rightarrow> lex_populate a ps (count + 1) hashlist' w'))"

text \<open>
  The second loop: walk \<^verbatim>\<open>a->list\<close> and \<^verbatim>\<open>hashlist\<close> side by side and store each
  pair in the hash table.
\<close>

fun lex_assign ::
  "uint64_t list \<Rightarrow> uint64_t list \<Rightarrow> (uint64_t \<rightharpoonup> uint64_t) \<Rightarrow> world
     \<Rightarrow> error + (uint64_t \<rightharpoonup> uint64_t) \<times> world" where
  "lex_assign [] qs ht w = Inr (ht, w)"
| "lex_assign (p # ps) qs ht w =
     (case malloc w of (node, w') \<Rightarrow>
        if \<not> node then Inl Out_of_memory
        else (case qs of
                [] \<Rightarrow> Inl Null_dereference
              | q # qs' \<Rightarrow> lex_assign ps qs' (ht(p \<mapsto> q)) w'))"

text \<open>
  \<^verbatim>\<open>anon_uint64_set_state\<close>. The requested state is one of the three enumerators at
  every call site, so the \<^verbatim>\<open>default\<close> branch is not there. The function returns 0 on
  every path that returns.
\<close>

fun anon_uint64_set_state ::
  "anon_uint64 \<Rightarrow> anon_uint64_state_t \<Rightarrow> world \<Rightarrow> (error + anon_uint64 \<times> world) option" where
  "anon_uint64_set_state a INIT w = Some (Inr (a, w))"
| "anon_uint64_set_state a NON_LEX w =
     (if state a = NON_LEX then Some (Inr (a, w))
      else if state a \<noteq> INIT then Some (Inl Mode_conflict)
      else Some (Inr (a\<lparr>state := NON_LEX\<rparr>, w)))"
| "anon_uint64_set_state a LEX w =
     (if state a = LEX then Some (Inr (a, w))
      else if state a \<noteq> INIT then Some (Inl Mode_conflict)
      else (let a1 = a\<lparr>state := LEX\<rparr> in
            case lex_populate a1 (list_u64 a1) 0 [] w of
              None \<Rightarrow> None
            | Some (Inl e) \<Rightarrow> Some (Inl e)
            | Some (Inr (hashlist, w1)) \<Rightarrow>
                (case lex_assign (list_u64 a1) hashlist (hash_table a1) w1 of
                   Inl e \<Rightarrow> Some (Inl e)
                 | Inr (ht, w2) \<Rightarrow> Some (Inr (a1\<lparr>hash_table := ht, list_u64 := []\<rparr>, w2)))))"

section \<open>The interface of the mapper\<close>

text \<open>
  \<^verbatim>\<open>anon_uint64_new\<close>: the assertion, the allocation of the object (\<^verbatim>\<open>NULL\<close>, here
  \<open>None\<close>, when it fails), the fields. OpenSSL's random pool is taken as seeded
  (\<^verbatim>\<open>RAND_status()\<close> true), so the seeding loop is not entered.
\<close>

definition anon_uint64_new ::
  "uint64_t \<Rightarrow> uint64_t \<Rightarrow> world \<Rightarrow> error + anon_uint64 option \<times> world" where
  "anon_uint64_new lower' upper' w =
     (if \<not> lower' \<le> upper' then Inl Lower_above_upper
      else (case malloc w of (a, w') \<Rightarrow>
              if \<not> a then Inr (None, w')
              else Inr (Some \<lparr>hash_table = Map.empty, list_u64 = [], state = INIT,
                               lower = lower', upper = upper',
                               range_u64 = upper' - lower' + 1\<rparr>, w')))"

text \<open>
  \<^verbatim>\<open>anon_uint64_set_key\<close>: its body is the comment "we might want to use the key to seed
  the RAND_* stuff". The key type \<^verbatim>\<open>anon_key_t\<close> is declared in \<^verbatim>\<open>libanon.h\<close>; the
  function is the same for every type of key.
\<close>

definition anon_uint64_set_key :: "anon_uint64 \<Rightarrow> 'key \<Rightarrow> anon_uint64" where
  "anon_uint64_set_key a key = a"

text \<open>
  Every operation below returns \<open>None\<close> when it does not return, \<open>Some (Inl e)\<close> when
  the process stops with \<open>e\<close>, and \<open>Some (Inr (r, a', w'))\<close> when it returns \<open>r\<close> and
  leaves the object as \<open>a'\<close> and the world as \<open>w'\<close>.
\<close>

definition anon_uint64_set_used ::
  "anon_uint64 \<Rightarrow> uint64_t \<Rightarrow> world \<Rightarrow> (error + int \<times> anon_uint64 \<times> world) option" where
  "anon_uint64_set_used a num w =
     (case anon_uint64_set_state a INIT w of
        None \<Rightarrow> None
      | Some (Inl e) \<Rightarrow> Some (Inl e)
      | Some (Inr (a1, w1)) \<Rightarrow>
          (case list_insert (list_u64 a1) num w1 of (r, l, w2) \<Rightarrow>
             Some (Inr (if r \<ge> 0 then 0 else - 1, a1\<lparr>list_u64 := l\<rparr>, w2))))"

text \<open>
  The \<^verbatim>\<open>do ... while (tmp==1)\<close> loop of \<^verbatim>\<open>anon_uint64_map\<close>: draw, insert into
  \<^verbatim>\<open>a->list\<close>, assert that the insertion did not fail, repeat on a duplicate.
\<close>

partial_function (option) map_draw ::
  "anon_uint64 \<Rightarrow> world \<Rightarrow> (error + uint64_t \<times> anon_uint64 \<times> world) option" where
  "map_draw a w =
     (case generate_random_number a w of
        Inl e \<Rightarrow> Some (Inl e)
      | Inr (anum, w1) \<Rightarrow>
          (case list_insert (list_u64 a) anum w1 of (tmp, l, w2) \<Rightarrow>
             if \<not> tmp \<ge> 0 then Some (Inl Out_of_memory)
             else if tmp = 1 then map_draw (a\<lparr>list_u64 := l\<rparr>) w2
             else Some (Inr (anum, a\<lparr>list_u64 := l\<rparr>, w2))))"

text \<open>\<^verbatim>\<open>anon_uint64_map\<close> returns 0 and writes the anonymized number to \<^verbatim>\<open>*anum\<close>.\<close>

definition anon_uint64_map ::
  "anon_uint64 \<Rightarrow> uint64_t \<Rightarrow> world
     \<Rightarrow> (error + (int \<times> uint64_t) \<times> anon_uint64 \<times> world) option" where
  "anon_uint64_map a num w =
     (case anon_uint64_set_state a NON_LEX w of
        None \<Rightarrow> None
      | Some (Inl e) \<Rightarrow> Some (Inl e)
      | Some (Inr (a1, w1)) \<Rightarrow>
          (case hash_table a1 num of
             Some h \<Rightarrow> Some (Inr ((0, h), a1, w1))
           | None \<Rightarrow>
               (case map_draw a1 w1 of
                  None \<Rightarrow> None
                | Some (Inl e) \<Rightarrow> Some (Inl e)
                | Some (Inr (anum, a2, w2)) \<Rightarrow>
                    (case malloc w2 of (p, w3) \<Rightarrow>
                       if \<not> p then Some (Inl Out_of_memory)
                       else Some (Inr ((0, anum),
                                       a2\<lparr>hash_table := (hash_table a2)(num \<mapsto> anum)\<rparr>,
                                       w3))))))"

text \<open>\<^verbatim>\<open>anon_uint64_map_lex\<close>: finalize on the first call, then look the number up.\<close>

definition anon_uint64_map_lex ::
  "anon_uint64 \<Rightarrow> uint64_t \<Rightarrow> world
     \<Rightarrow> (error + (int \<times> uint64_t) \<times> anon_uint64 \<times> world) option" where
  "anon_uint64_map_lex a num w =
     (case anon_uint64_set_state a LEX w of
        None \<Rightarrow> None
      | Some (Inl e) \<Rightarrow> Some (Inl e)
      | Some (Inr (a1, w1)) \<Rightarrow>
          (case hash_table a1 num of
             None \<Rightarrow> Some (Inl Not_marked)
           | Some h \<Rightarrow> Some (Inr ((0, h), a1, w1))))"

section \<open>Sequences of calls on one mapper\<close>

datatype call = Set_used uint64_t | Map uint64_t | Map_lex uint64_t

datatype reply = Status int | Anum int uint64_t

fun do_call ::
  "anon_uint64 \<Rightarrow> world \<Rightarrow> call \<Rightarrow> (error + reply \<times> anon_uint64 \<times> world) option" where
  "do_call a w (Set_used num) =
     (case anon_uint64_set_used a num w of
        None \<Rightarrow> None
      | Some (Inl e) \<Rightarrow> Some (Inl e)
      | Some (Inr (r, a', w')) \<Rightarrow> Some (Inr (Status r, a', w')))"
| "do_call a w (Map num) =
     (case anon_uint64_map a num w of
        None \<Rightarrow> None
      | Some (Inl e) \<Rightarrow> Some (Inl e)
      | Some (Inr ((r, anum), a', w')) \<Rightarrow> Some (Inr (Anum r anum, a', w')))"
| "do_call a w (Map_lex num) =
     (case anon_uint64_map_lex a num w of
        None \<Rightarrow> None
      | Some (Inl e) \<Rightarrow> Some (Inl e)
      | Some (Inr ((r, anum), a', w')) \<Rightarrow> Some (Inr (Anum r anum, a', w')))"

text \<open>
  A caller making the calls \<open>cs\<close> one after the other: the replies in order, the object
  and the world at the end. The first call that stops the process or does not return
  ends the sequence.
\<close>

fun run ::
  "anon_uint64 \<Rightarrow> world \<Rightarrow> call list \<Rightarrow> (error + reply list \<times> anon_uint64 \<times> world) option" where
  "run a w [] = Some (Inr ([], a, w))"
| "run a w (c # cs) =
     (case do_call a w c of
        None \<Rightarrow> None
      | Some (Inl e) \<Rightarrow> Some (Inl e)
      | Some (Inr (r, a1, w1)) \<Rightarrow>
          (case run a1 w1 cs of
             None \<Rightarrow> None
           | Some (Inl e) \<Rightarrow> Some (Inl e)
           | Some (Inr (rs, a2, w2)) \<Rightarrow> Some (Inr (r # rs, a2, w2))))"

section \<open>The command line: \<^verbatim>\<open>anon uint64\<close>\<close>

text \<open>
  The C library's \<^verbatim>\<open>%\<close>\<^verbatim>\<open>SCNu64\<close> conversion, as \<^verbatim>\<open>sscanf\<close> and
  \<^verbatim>\<open>fscanf\<close> apply it: skip white space, take an optional sign and then the longest
  run of decimal digits; the conversion fails when there is no digit. The value is the
  one \<^verbatim>\<open>strtoull\<close> gives: \<^verbatim>\<open>UINT64_MAX\<close> when the digits do not fit, otherwise
  the number, negated modulo \<open>2\<^sup>6\<^sup>4\<close> after a minus sign. The result is the value
  and the input left unread.
\<close>

definition isspace :: "char \<Rightarrow> bool" where
  "isspace c = (c \<in> set [CHR '' '', CHR 0x09, CHR 0x0A, CHR 0x0B, CHR 0x0C, CHR 0x0D])"

definition isdigit :: "char \<Rightarrow> bool" where
  "isdigit c = ((of_char CHR ''0'' :: nat) \<le> of_char c \<and> (of_char c :: nat) \<le> of_char CHR ''9'')"

definition digit_value :: "char \<Rightarrow> int" where
  "digit_value c = of_char c - of_char CHR ''0''"

definition decimal :: "string \<Rightarrow> int" where
  "decimal ds = foldl (\<lambda>n c. 10 * n + digit_value c) 0 ds"

definition scan_u64 :: "string \<Rightarrow> (uint64_t \<times> string) option" where
  "scan_u64 s =
     (let s1 = dropWhile isspace s;
          minus = (s1 \<noteq> [] \<and> hd s1 = CHR ''-'');
          s2 = (if s1 \<noteq> [] \<and> (hd s1 = CHR ''-'' \<or> hd s1 = CHR ''+'') then tl s1 else s1);
          ds = takeWhile isdigit s2
      in if ds = [] then None
         else Some (if decimal ds \<ge> 2 ^ 64 then - 1
                    else if minus then - word_of_int (decimal ds)
                    else word_of_int (decimal ds),
                    dropWhile isdigit s2))"

text \<open>
  \<^verbatim>\<open>while (fscanf(f, "%"SCNu64, &num) == 1)\<close>: the numbers read from a stream whose
  unread content is \<open>s\<close>, up to the first failed conversion. The bound is the length of
  the content: every successful conversion consumes a digit.
\<close>

fun read_numbers :: "nat \<Rightarrow> string \<Rightarrow> uint64_t list" where
  "read_numbers 0 s = []"
| "read_numbers (Suc k) s =
     (case scan_u64 s of None \<Rightarrow> [] | Some (num, rest) \<Rightarrow> num # read_numbers k rest)"

definition anums :: "reply list \<Rightarrow> uint64_t list" where
  "anums rs = concat (map (\<lambda>r. case r of Anum _ v \<Rightarrow> [v] | Status _ \<Rightarrow> []) rs)"

text \<open>
  \<^verbatim>\<open>uint64_lex\<close>: a first pass marks every number of the file as used, a second pass
  from the start of the file maps each with \<^verbatim>\<open>anon_uint64_map_lex\<close> and prints it.
  \<^verbatim>\<open>uint64_nolex\<close>: one pass with \<^verbatim>\<open>anon_uint64_map\<close>. The result is the list of
  the numbers printed.
\<close>

definition uint64_lex ::
  "anon_uint64 \<Rightarrow> string \<Rightarrow> world \<Rightarrow> (error + uint64_t list \<times> anon_uint64 \<times> world) option" where
  "uint64_lex a f w =
     (let nums = read_numbers (length f) f in
      case run a w (map Set_used nums) of
        None \<Rightarrow> None
      | Some (Inl e) \<Rightarrow> Some (Inl e)
      | Some (Inr (_, a1, w1)) \<Rightarrow>
          (case run a1 w1 (map Map_lex nums) of
             None \<Rightarrow> None
           | Some (Inl e) \<Rightarrow> Some (Inl e)
           | Some (Inr (rs, a2, w2)) \<Rightarrow> Some (Inr (anums rs, a2, w2))))"

definition uint64_nolex ::
  "anon_uint64 \<Rightarrow> string \<Rightarrow> world \<Rightarrow> (error + uint64_t list \<times> anon_uint64 \<times> world) option" where
  "uint64_nolex a f w =
     (case run a w (map Map (read_numbers (length f) f)) of
        None \<Rightarrow> None
      | Some (Inl e) \<Rightarrow> Some (Inl e)
      | Some (Inr (rs, a1, w1)) \<Rightarrow> Some (Inr (anums rs, a1, w1)))"

text \<open>How the process of \<^verbatim>\<open>anon uint64\<close> ends when it prints no result.\<close>

datatype failure =
    Usage                    \<comment> \<open>fewer than three arguments: the usage line, \<^verbatim>\<open>EXIT_FAILURE\<close>\<close>
  | Lower_not_a_number       \<comment> \<open>"lower bound must be a number"\<close>
  | Upper_not_a_number       \<comment> \<open>"upper bound must be a number"\<close>
  | Cannot_open string       \<comment> \<open>\<^verbatim>\<open>xfopen\<close>: the file of this name cannot be opened\<close>
  | Failed_to_initialize     \<comment> \<open>\<^verbatim>\<open>anon_uint64_new\<close> returned \<^verbatim>\<open>NULL\<close>\<close>
  | Aborted error            \<comment> \<open>the library stopped the process\<close>

text \<open>
  \<^verbatim>\<open>xfopen\<close> for reading: the file system is a map from names to contents.
\<close>

definition xfopen :: "(string \<rightharpoonup> string) \<Rightarrow> string \<Rightarrow> failure + string" where
  "xfopen files filename =
     (case files filename of None \<Rightarrow> Inl (Cannot_open filename) | Some f \<Rightarrow> Inr f)"

text \<open>
  \<^verbatim>\<open>cmd_uint64\<close> after the options are parsed: \<open>lflag\<close> is set by \<^verbatim>\<open>-l\<close> and
  \<open>argv\<close> holds the arguments left (\<^verbatim>\<open>argv += optind\<close>). The key object made from
  the passphrase is never handed to the mapper and is left out.
\<close>

definition cmd_uint64 ::
  "bool \<Rightarrow> string list \<Rightarrow> (string \<rightharpoonup> string) \<Rightarrow> world \<Rightarrow> (failure + uint64_t list) option" where
  "cmd_uint64 lflag argv files w =
     (if length argv < 3 then Some (Inl Usage)
      else case scan_u64 (argv ! 0) of
        None \<Rightarrow> Some (Inl Lower_not_a_number)
      | Some (lower', _) \<Rightarrow>
     (case scan_u64 (argv ! 1) of
        None \<Rightarrow> Some (Inl Upper_not_a_number)
      | Some (upper', _) \<Rightarrow>
     (case xfopen files (argv ! 1) of
        Inl x \<Rightarrow> Some (Inl x)
      | Inr f \<Rightarrow>
     (case anon_uint64_new lower' upper' w of
        Inl e \<Rightarrow> Some (Inl (Aborted e))
      | Inr (None, _) \<Rightarrow> Some (Inl Failed_to_initialize)
      | Inr (Some a, w1) \<Rightarrow>
          (case (if lflag then uint64_lex a f w1 else uint64_nolex a f w1) of
             None \<Rightarrow> None
           | Some (Inl e) \<Rightarrow> Some (Inl (Aborted e))
           | Some (Inr (out, _, _)) \<Rightarrow> Some (Inr out))))))"

section \<open>Notions used in the statements\<close>

definition strictly_descending :: "uint64_t list \<Rightarrow> bool" where
  "strictly_descending xs = sorted_wrt (\<lambda>x y. x > y) xs"

text \<open>
  A world at the start of the process: nothing drawn and nothing allocated yet.
\<close>

definition initial_world :: "(nat \<Rightarrow> uint64_t) \<Rightarrow> (nat \<Rightarrow> bool) \<Rightarrow> world" where
  "initial_world rs hs = \<lparr>rand_src = rs, rand_pos = 0, heap_src = hs, heap_pos = 0\<rparr>"

text \<open>Two sample oracles: the random bytes count upwards, every allocation succeeds.\<close>

definition counting :: "nat \<Rightarrow> uint64_t" where
  "counting n = word_of_nat n"

definition plentiful :: "nat \<Rightarrow> bool" where
  "plentiful n = True"

text \<open>
  A random source in which every residue modulo \<open>m\<close> keeps coming back. A generator of
  independent uniform bytes has this property with probability 1.
\<close>

definition every_residue_recurs :: "(nat \<Rightarrow> uint64_t) \<Rightarrow> uint64_t \<Rightarrow> bool" where
  "every_residue_recurs rs m = (\<forall>i v. v < m \<longrightarrow> (\<exists>j\<ge>i. rs j mod m = v))"

text \<open>A hash table that maps smaller numbers to smaller numbers.\<close>

definition order_preserving :: "(uint64_t \<rightharpoonup> uint64_t) \<Rightarrow> bool" where
  "order_preserving m = (\<forall>x y u v. m x = Some u \<and> m y = Some v \<and> x < y \<longrightarrow> u < v)"

text \<open>
  What holds of the object between any two calls: the bounds are in order and
  \<^verbatim>\<open>range\<close> is computed from them, the list is strictly descending, the table is
  empty before the first mapping and order preserving in the lex mode, and every image
  in the table lies between the bounds.
\<close>

definition well_formed :: "anon_uint64 \<Rightarrow> bool" where
  "well_formed a =
     (lower a \<le> upper a \<and> range_u64 a = upper a - lower a + 1
      \<and> strictly_descending (list_u64 a)
      \<and> (state a = INIT \<longrightarrow> hash_table a = Map.empty)
      \<and> (state a = LEX \<longrightarrow> order_preserving (hash_table a))
      \<and> (\<forall>k v. hash_table a k = Some v \<longrightarrow> lower a \<le> v \<and> v \<le> upper a))"

text \<open>
  Two worlds with the same future: from now on \<^verbatim>\<open>RAND_bytes\<close> delivers the same
  values in both and \<^verbatim>\<open>malloc\<close> succeeds and fails alike in both.
\<close>

definition same_future :: "world \<Rightarrow> world \<Rightarrow> bool" where
  "same_future w v =
     ((\<forall>n. rand_src w (rand_pos w + n) = rand_src v (rand_pos v + n))
      \<and> (\<forall>n. heap_src w (heap_pos w + n) = heap_src v (heap_pos v + n)))"

text \<open>
  Two outcomes of an operation that are alike: both do not return, or both stop with the
  same error, or both return the same value and leave the same object, in worlds with
  the same future. The second notion is for the loops that return a list only.
\<close>

abbreviation alike ::
  "(error + 'x \<times> anon_uint64 \<times> world) option \<Rightarrow> (error + 'x \<times> anon_uint64 \<times> world) option
     \<Rightarrow> bool" where
  "alike \<equiv> rel_option (rel_sum (=) (rel_prod (=) (rel_prod (=) same_future)))"

abbreviation alike_lists ::
  "(error + uint64_t list \<times> world) option \<Rightarrow> (error + uint64_t list \<times> world) option
     \<Rightarrow> bool" where
  "alike_lists \<equiv> rel_option (rel_sum (=) (rel_prod (=) same_future))"

text \<open>A world in which every allocation from now on succeeds.\<close>

definition enough_memory :: "world \<Rightarrow> bool" where
  "enough_memory w = (\<forall>i. heap_src w (heap_pos w + i))"

text \<open>
  The numbers that \<^verbatim>\<open>generate_random_number\<close> delivers, for the bounds \<open>lo\<close> and
  \<open>hi\<close>, between the world \<open>w\<close> and the later world \<open>w'\<close>.
\<close>

definition images_drawn :: "uint64_t \<Rightarrow> uint64_t \<Rightarrow> world \<Rightarrow> world \<Rightarrow> uint64_t set" where
  "images_drawn lo hi w w' =
     (\<lambda>n. rand_src w n mod (hi - lo + 1) + lo) ` {rand_pos w ..< rand_pos w'}"

declare lex_draw.simps [code]
declare map_draw.simps [code]

section \<open>The sorted list: what an insertion does\<close>

lemma list_insert_cases:
  "list_insert xs num w = (r, ys, w') \<Longrightarrow>
     (r = 1 \<and> ys = xs \<and> w' = w \<and> num \<in> set xs) \<or>
     (r = 0 \<and> malloc w = (True, w') \<and> set ys = insert num (set xs)
        \<and> length ys = Suc (length xs)) \<or>
     (r = - 1 \<and> malloc w = (False, w') \<and> ys = xs)"
proof (induction xs arbitrary: ys)
  case Nil
  obtain n w1 where m: "malloc w = (n, w1)" by (cases "malloc w")
  with Nil show ?case by (cases n) auto
next
  case (Cons p ps)
  obtain n w1 where m: "malloc w = (n, w1)" by (cases "malloc w")
  consider "num = p" | "num \<noteq> p" "num > p" | "num \<noteq> p" "\<not> num > p" by blast
  then show ?case
  proof cases
    case 1
    with Cons.prems show ?thesis by auto
  next
    case 2
    with Cons.prems m show ?thesis by (cases n) auto
  next
    case 3
    obtain r1 ps1 w2 where rec: "list_insert ps num w = (r1, ps1, w2)"
      by (cases "list_insert ps num w")
    with 3 Cons.prems have eq: "r = r1" "ys = p # ps1" "w' = w2" by simp_all
    from Cons.IH [of ps1] rec eq show ?thesis by auto
  qed
qed

lemma list_insert_present:
  "strictly_descending xs \<Longrightarrow> num \<in> set xs \<Longrightarrow> list_insert xs num w = (1, xs, w)"
  by (induction xs) (auto simp: strictly_descending_def)

lemma list_insert_descending:
  "strictly_descending xs \<Longrightarrow> list_insert xs num w = (r, ys, w') \<Longrightarrow> strictly_descending ys"
proof (induction xs arbitrary: r ys w')
  case Nil
  from list_insert_cases [OF Nil.prems(2)] show ?case
    by (auto simp: strictly_descending_def length_Suc_conv)
next
  case (Cons p ps)
  obtain n w1 where m: "malloc w = (n, w1)" by (cases "malloc w")
  consider "num = p" | "num \<noteq> p" "num > p" | "num \<noteq> p" "\<not> num > p" by blast
  then show ?case
  proof cases
    case 1
    with Cons.prems show ?thesis by simp
  next
    case 2
    have "\<forall>x\<in>set ps. x < num"
      using 2 Cons.prems(1) by (auto simp: strictly_descending_def intro: less_trans)
    with 2 Cons.prems m show ?thesis
      by (cases n) (auto simp: strictly_descending_def)
  next
    case 3
    obtain r1 ps1 w2 where rec: "list_insert ps num w = (r1, ps1, w2)"
      by (cases "list_insert ps num w")
    with 3 Cons.prems have eq: "ys = p # ps1" by simp
    have tail: "strictly_descending ps1"
      using Cons.IH [OF _ rec] Cons.prems(1) by (simp add: strictly_descending_def)
    have "set ps1 \<subseteq> insert num (set ps)"
      using list_insert_cases [OF rec] by auto
    moreover have "num < p" using 3 by auto
    ultimately show ?thesis
      using tail Cons.prems(1) eq by (auto simp: strictly_descending_def)
  qed
qed

section \<open>The random draws\<close>

lemma word_offset_in_interval:
  fixes lo hi y :: uint64_t
  assumes "lo \<le> hi" and "y < hi - lo + 1"
  shows "lo \<le> y + lo \<and> y + lo \<le> hi"
proof -
  have d: "unat (hi - lo) = unat hi - unat lo"
    using assms(1) by (simp add: unat_sub)
  have ne: "hi - lo + 1 \<noteq> 0" using assms(2) by auto
  then have "unat (hi - lo + 1) = Suc (unat (hi - lo))"
    using unatSuc [of "hi - lo"] by (simp add: add.commute)
  with assms(2) d have y: "unat y \<le> unat hi - unat lo"
    by (simp add: word_less_nat_alt)
  have le: "unat lo \<le> unat hi" using assms(1) by (simp add: word_le_nat_alt)
  have "unat hi < 2 ^ LENGTH(64)" by (rule unsigned_less)
  with y le have "unat y + unat lo < 2 ^ LENGTH(64)" by linarith
  then have s: "unat (y + lo) = unat y + unat lo"
    by (rule unat_add_lem [THEN iffD1])
  show ?thesis using s y le by (simp add: word_le_nat_alt)
qed

lemma generate_random_number_Inr:
  "generate_random_number a w = Inr (v, w') \<longleftrightarrow>
     range_u64 a \<noteq> 0 \<and> v = rand_src w (rand_pos w) mod range_u64 a + lower a
       \<and> w' = w\<lparr>rand_pos := Suc (rand_pos w)\<rparr>"
  by (auto simp: generate_random_number_def RAND_bytes_def)

lemma generate_random_number_Inl:
  "generate_random_number a w = Inl e \<longleftrightarrow> range_u64 a = 0 \<and> e = Division_by_zero"
  by (auto simp: generate_random_number_def RAND_bytes_def)

lemma draw_in_range:
  fixes lo hi x :: uint64_t
  assumes "lo \<le> hi" and "hi - lo + 1 \<noteq> 0"
  shows "lo \<le> x mod (hi - lo + 1) + lo \<and> x mod (hi - lo + 1) + lo \<le> hi"
proof -
  have "x mod (hi - lo + 1) < hi - lo + 1"
    using assms(2) by (simp add: word_mod_less_divisor word_neq_0_conv)
  with assms(1) show ?thesis by (rule word_offset_in_interval)
qed

section \<open>The drawing loops\<close>

lemma map_draw_step:
  "map_draw a w =
     (if range_u64 a = 0 then Some (Inl Division_by_zero)
      else (case list_insert (list_u64 a)
                  (rand_src w (rand_pos w) mod range_u64 a + lower a)
                  (w\<lparr>rand_pos := Suc (rand_pos w)\<rparr>) of
              (tmp, l, w2) \<Rightarrow>
                if tmp = - 1 then Some (Inl Out_of_memory)
                else if tmp = 1 then map_draw a w2
                else Some (Inr (rand_src w (rand_pos w) mod range_u64 a + lower a,
                                a\<lparr>list_u64 := l\<rparr>, w2))))"
proof (cases "range_u64 a = 0")
  case True
  then show ?thesis
    by (subst map_draw.simps) (simp add: generate_random_number_def RAND_bytes_def)
next
  case False
  let ?v = "rand_src w (rand_pos w) mod range_u64 a + lower a"
  let ?w1 = "w\<lparr>rand_pos := Suc (rand_pos w)\<rparr>"
  obtain tmp l w2 where li: "list_insert (list_u64 a) ?v ?w1 = (tmp, l, w2)"
    by (cases "list_insert (list_u64 a) ?v ?w1")
  from list_insert_cases [OF li] have "tmp = 1 \<and> l = list_u64 a \<or> tmp = 0 \<or> tmp = - 1" by auto
  then show ?thesis
    using False li
    by (subst map_draw.simps)
       (auto simp: generate_random_number_def RAND_bytes_def)
qed

lemma lex_draw_step:
  "lex_draw a hashlist w =
     (if range_u64 a = 0 then Some (Inl Division_by_zero)
      else (case list_insert hashlist
                  (rand_src w (rand_pos w) mod range_u64 a + lower a)
                  (w\<lparr>rand_pos := Suc (rand_pos w)\<rparr>) of
              (r, hashlist', w2) \<Rightarrow>
                if r = 1 then lex_draw a hashlist w2 else Some (Inr (hashlist', w2))))"
proof (cases "range_u64 a = 0")
  case True
  then show ?thesis
    by (subst lex_draw.simps) (simp add: generate_random_number_def RAND_bytes_def)
next
  case False
  let ?v = "rand_src w (rand_pos w) mod range_u64 a + lower a"
  let ?w1 = "w\<lparr>rand_pos := Suc (rand_pos w)\<rparr>"
  obtain r l w2 where li: "list_insert hashlist ?v ?w1 = (r, l, w2)"
    by (cases "list_insert hashlist ?v ?w1")
  from list_insert_cases [OF li] have "r = 1 \<and> l = hashlist \<or> r = 0 \<or> r = - 1" by auto
  then show ?thesis
    using False li
    by (subst lex_draw.simps)
       (auto simp: generate_random_number_def RAND_bytes_def)
qed

lemma map_draw_result_aux:
  "map_draw a w = Some y \<Longrightarrow> y = Inr (v, a', w') \<Longrightarrow>
     range_u64 a \<noteq> 0 \<and> (\<exists>x. v = x mod range_u64 a + lower a)
       \<and> a' = a\<lparr>list_u64 := list_u64 a'\<rparr>
       \<and> set (list_u64 a') = insert v (set (list_u64 a))
       \<and> (strictly_descending (list_u64 a) \<longrightarrow> strictly_descending (list_u64 a'))"
proof (induction a w y rule: map_draw.raw_induct [rotated 1, consumes 1])
  case (1 f a w y)
  have ne: "range_u64 a \<noteq> 0"
    using "1.hyps" "1.prems"
    by (auto simp: generate_random_number_def RAND_bytes_def split: if_splits)
  let ?v = "rand_src w (rand_pos w) mod range_u64 a + lower a"
  let ?w1 = "w\<lparr>rand_pos := Suc (rand_pos w)\<rparr>"
  obtain tmp l w2 where li: "list_insert (list_u64 a) ?v ?w1 = (tmp, l, w2)"
    by (cases "list_insert (list_u64 a) ?v ?w1")
  have body: "(if \<not> 0 \<le> tmp then Some (Inl Out_of_memory)
               else if tmp = 1 then f (a\<lparr>list_u64 := l\<rparr>) w2
               else Some (Inr (?v, a\<lparr>list_u64 := l\<rparr>, w2))) = Some y"
    using "1.hyps" ne li by (simp add: generate_random_number_def RAND_bytes_def)
  from list_insert_cases [OF li]
  consider "tmp = 1" "l = list_u64 a" | "tmp = 0" "set l = insert ?v (set (list_u64 a))"
    | "tmp = - 1" by auto
  then show ?case
  proof cases
    case 1
    with body have "f a w2 = Some y" by simp
    from "1.IH" [OF this "1.prems"] show ?thesis .
  next
    case 2
    with body "1.prems" have "v = ?v" "a' = a\<lparr>list_u64 := l\<rparr>" by simp_all
    with 2 ne list_insert_descending [OF _ li] show ?thesis by auto
  next
    case 3
    with body "1.prems" show ?thesis by simp
  qed
qed

lemmas map_draw_result = map_draw_result_aux [OF _ refl]

lemma map_draw_error:
  "map_draw a w = Some y \<Longrightarrow> y = Inl e \<Longrightarrow>
     (range_u64 a = 0 \<and> e = Division_by_zero) \<or> e = Out_of_memory"
proof (induction a w y rule: map_draw.raw_induct [rotated 1, consumes 1])
  case (1 f a w y)
  show ?case
  proof (cases "range_u64 a = 0")
    case True
    with "1.hyps" "1.prems" show ?thesis
      by (simp add: generate_random_number_def RAND_bytes_def)
  next
    case ne: False
    let ?v = "rand_src w (rand_pos w) mod range_u64 a + lower a"
    let ?w1 = "w\<lparr>rand_pos := Suc (rand_pos w)\<rparr>"
    obtain tmp l w2 where li: "list_insert (list_u64 a) ?v ?w1 = (tmp, l, w2)"
      by (cases "list_insert (list_u64 a) ?v ?w1")
    have body: "(if \<not> 0 \<le> tmp then Some (Inl Out_of_memory)
                 else if tmp = 1 then f (a\<lparr>list_u64 := l\<rparr>) w2
                 else Some (Inr (?v, a\<lparr>list_u64 := l\<rparr>, w2))) = Some y"
      using "1.hyps" ne li by (simp add: generate_random_number_def RAND_bytes_def)
    from list_insert_cases [OF li]
    consider "tmp = 1" "l = list_u64 a" | "tmp = 0" | "tmp = - 1" by auto
    then show ?thesis
    proof cases
      case 1
      with body have "f a w2 = Some y" by simp
      from "1.IH" [OF this "1.prems"] show ?thesis .
    next
      case 2
      with body "1.prems" show ?thesis by simp
    next
      case 3
      with body "1.prems" show ?thesis by auto
    qed
  qed
qed

text \<open>
  When every number the generator can deliver is already in the list, the loop of
  \<^verbatim>\<open>anon_uint64_map\<close> does not end.
\<close>

lemma map_draw_stalls_aux:
  "map_draw a w = Some y \<Longrightarrow>
     \<not> (range_u64 a \<noteq> 0 \<and> strictly_descending (list_u64 a)
         \<and> (\<forall>x. x mod range_u64 a + lower a \<in> set (list_u64 a)))"
proof (induction a w y rule: map_draw.raw_induct [rotated 1, consumes 1])
  case (1 f a w y)
  show ?case
  proof
    assume ex: "range_u64 a \<noteq> 0 \<and> strictly_descending (list_u64 a)
         \<and> (\<forall>x. x mod range_u64 a + lower a \<in> set (list_u64 a))"
    let ?v = "rand_src w (rand_pos w) mod range_u64 a + lower a"
    let ?w1 = "w\<lparr>rand_pos := Suc (rand_pos w)\<rparr>"
    have li: "list_insert (list_u64 a) ?v ?w1 = (1, list_u64 a, ?w1)"
      using ex by (intro list_insert_present) auto
    have "f a ?w1 = Some y"
      using "1.hyps" ex li by (simp add: generate_random_number_def RAND_bytes_def)
    from "1.IH" [OF this] ex show False by simp
  qed
qed

lemma map_draw_stalls:
  assumes "range_u64 a \<noteq> 0" and "strictly_descending (list_u64 a)"
    and "\<forall>x. x mod range_u64 a + lower a \<in> set (list_u64 a)"
  shows "map_draw a w = None"
proof (cases "map_draw a w")
  case None
  then show ?thesis .
next
  case (Some y)
  from map_draw_stalls_aux [OF this] assms show ?thesis by simp
qed

lemma lex_draw_result_aux:
  "lex_draw a hl w = Some y \<Longrightarrow> y = Inr (hl', w') \<Longrightarrow>
     range_u64 a \<noteq> 0
       \<and> (strictly_descending hl \<longrightarrow> strictly_descending hl')
       \<and> (hl' = hl \<or> (\<exists>x. set hl' = insert (x mod range_u64 a + lower a) (set hl)
                            \<and> length hl' = Suc (length hl)))"
proof (induction a hl w y rule: lex_draw.raw_induct [rotated 1, consumes 1])
  case (1 f a hl w y)
  have ne: "range_u64 a \<noteq> 0"
    using "1.hyps" "1.prems"
    by (auto simp: generate_random_number_def RAND_bytes_def split: if_splits)
  let ?v = "rand_src w (rand_pos w) mod range_u64 a + lower a"
  let ?w1 = "w\<lparr>rand_pos := Suc (rand_pos w)\<rparr>"
  obtain r l w2 where li: "list_insert hl ?v ?w1 = (r, l, w2)"
    by (cases "list_insert hl ?v ?w1")
  have body: "(if r = 1 then f a l w2 else Some (Inr (l, w2))) = Some y"
    using "1.hyps" ne li by (simp add: generate_random_number_def RAND_bytes_def)
  from list_insert_cases [OF li]
  consider "r = 1" "l = hl"
    | "r = 0" "set l = insert ?v (set hl)" "length l = Suc (length hl)"
    | "r = - 1" "l = hl" by auto
  then show ?case
  proof cases
    case 1
    with body have "f a hl w2 = Some y" by simp
    from "1.IH" [OF this "1.prems"] show ?thesis .
  next
    case 2
    with body "1.prems" have "hl' = l" by simp
    with 2 ne list_insert_descending [OF _ li] show ?thesis by auto
  next
    case 3
    with body "1.prems" ne show ?thesis by simp
  qed
qed

lemmas lex_draw_result = lex_draw_result_aux [OF _ refl]

lemma lex_draw_error_aux:
  "lex_draw a hl w = Some y \<Longrightarrow> y = Inl e \<Longrightarrow> range_u64 a = 0 \<and> e = Division_by_zero"
proof (induction a hl w y rule: lex_draw.raw_induct [rotated 1, consumes 1])
  case (1 f a hl w y)
  show ?case
  proof (cases "range_u64 a = 0")
    case True
    with "1.hyps" "1.prems" show ?thesis
      by (simp add: generate_random_number_def RAND_bytes_def)
  next
    case ne: False
    let ?v = "rand_src w (rand_pos w) mod range_u64 a + lower a"
    let ?w1 = "w\<lparr>rand_pos := Suc (rand_pos w)\<rparr>"
    obtain r l w2 where li: "list_insert hl ?v ?w1 = (r, l, w2)"
      by (cases "list_insert hl ?v ?w1")
    have body: "(if r = 1 then f a l w2 else Some (Inr (l, w2))) = Some y"
      using "1.hyps" ne li by (simp add: generate_random_number_def RAND_bytes_def)
    from list_insert_cases [OF li] consider "r = 1" "l = hl" | "r \<noteq> 1" by auto
    then show ?thesis
    proof cases
      case 1
      with body have "f a hl w2 = Some y" by simp
      from "1.IH" [OF this "1.prems"] show ?thesis .
    next
      case 2
      with body "1.prems" show ?thesis by simp
    qed
  qed
qed

lemmas lex_draw_error = lex_draw_error_aux [OF _ refl]

section \<open>The two loops of the finalization\<close>

lemma lex_populate_result:
  "lex_populate a ps count hl w = Some (Inr (hl', w')) \<Longrightarrow>
     (strictly_descending hl \<longrightarrow> strictly_descending hl')
       \<and> length hl' \<le> length hl + length ps
       \<and> (\<forall>v\<in>set hl'. v \<in> set hl \<or> (range_u64 a \<noteq> 0 \<and> (\<exists>x. v = x mod range_u64 a + lower a)))"
proof (induction ps arbitrary: count hl w)
  case Nil
  then show ?case by simp
next
  case (Cons p ps)
  from Cons.prems obtain hl1 w1 where
    d: "lex_draw a hl w = Some (Inr (hl1, w1))" and
    r: "lex_populate a ps (count + 1) hl1 w1 = Some (Inr (hl', w'))"
    by (auto split: if_splits option.splits sum.splits)
  note d' = lex_draw_result [OF d]
  note r' = Cons.IH [OF r]
  have 1: "strictly_descending hl \<longrightarrow> strictly_descending hl'"
    using d' r' by blast
  have 2: "length hl' \<le> length hl + length (p # ps)"
    using d' r' by auto
  have 3: "\<forall>v\<in>set hl'. v \<in> set hl \<or> (range_u64 a \<noteq> 0 \<and> (\<exists>x. v = x mod range_u64 a + lower a))"
  proof
    fix v assume "v \<in> set hl'"
    with r' have "v \<in> set hl1 \<or> (range_u64 a \<noteq> 0 \<and> (\<exists>x. v = x mod range_u64 a + lower a))"
      by blast
    with d' show "v \<in> set hl \<or> (range_u64 a \<noteq> 0 \<and> (\<exists>x. v = x mod range_u64 a + lower a))"
      by auto
  qed
  from 1 2 3 show ?case by blast
qed

lemma lex_assign_result:
  "lex_assign ps qs ht w = Inr (ht', w') \<Longrightarrow>
     length ps \<le> length qs
       \<and> (\<forall>k. k \<notin> set ps \<longrightarrow> ht' k = ht k)
       \<and> (distinct ps \<longrightarrow> (\<forall>i<length ps. ht' (ps ! i) = Some (qs ! i)))"
proof (induction ps arbitrary: qs ht w)
  case Nil
  then show ?case by simp
next
  case (Cons p ps)
  from Cons.prems obtain q qs' w1 where
    qs: "qs = q # qs'" and r: "lex_assign ps qs' (ht(p \<mapsto> q)) w1 = Inr (ht', w')"
    by (auto split: prod.splits if_splits list.splits)
  note r' = Cons.IH [OF r]
  have 1: "length (p # ps) \<le> length qs" using r' qs by simp
  have 2: "\<forall>k. k \<notin> set (p # ps) \<longrightarrow> ht' k = ht k" using r' by auto
  have 3: "distinct (p # ps) \<longrightarrow> (\<forall>i<length (p # ps). ht' ((p # ps) ! i) = Some (qs ! i))"
  proof (intro impI allI)
    fix i assume dist: "distinct (p # ps)" and i: "i < length (p # ps)"
    show "ht' ((p # ps) ! i) = Some (qs ! i)"
    proof (cases i)
      case 0
      with dist r' qs show ?thesis by simp
    next
      case (Suc j)
      with dist r' qs i show ?thesis by simp
    qed
  qed
  from 1 2 3 show ?case by blast
qed

section \<open>What the operations do to the object\<close>

lemma set_state_NON_LEX:
  "anon_uint64_set_state a NON_LEX w =
     (if state a = LEX then Some (Inl Mode_conflict) else Some (Inr (a\<lparr>state := NON_LEX\<rparr>, w)))"
  by (cases "state a") auto

lemma set_state_LEX_again:
  "state a = LEX \<Longrightarrow> anon_uint64_set_state a LEX w = Some (Inr (a, w))"
  by simp

lemma set_state_LEX_after_map:
  "state a = NON_LEX \<Longrightarrow> anon_uint64_set_state a LEX w = Some (Inl Mode_conflict)"
  by simp

lemma set_state_LEX_first:
  assumes "anon_uint64_set_state a LEX w = Some (Inr (a', w'))" and "state a = INIT"
  shows "\<exists>hl w1 ht.
           lex_populate (a\<lparr>state := LEX\<rparr>) (list_u64 a) 0 [] w = Some (Inr (hl, w1))
         \<and> lex_assign (list_u64 a) hl (hash_table a) w1 = Inr (ht, w')
         \<and> a' = a\<lparr>state := LEX, hash_table := ht, list_u64 := []\<rparr>"
  using assms by (auto simp: Let_def split: option.splits sum.splits)

lemma descending_distinct: "strictly_descending xs \<Longrightarrow> distinct xs"
  by (induction xs) (auto simp: strictly_descending_def)

lemma descending_nth_less:
  "strictly_descending xs \<Longrightarrow> i < j \<Longrightarrow> j < length xs \<Longrightarrow> xs ! j < xs ! i"
  using sorted_wrt_nth_less [of "\<lambda>x y. x > y" xs i j]
  by (simp add: strictly_descending_def)

text \<open>
  The finalization of the lex mode: the list of used numbers and the list of images are
  both strictly descending and equally long, and the table pairs them position by
  position.
\<close>

lemma finalize_pairing:
  assumes fin: "anon_uint64_set_state a LEX w = Some (Inr (a', w'))"
    and init: "state a = INIT"
    and desc: "strictly_descending (list_u64 a)"
    and empty: "hash_table a = Map.empty"
  shows "\<exists>hl. strictly_descending hl \<and> length hl = length (list_u64 a)
           \<and> (\<forall>i<length hl. hash_table a' (list_u64 a ! i) = Some (hl ! i))
           \<and> (\<forall>k. k \<notin> set (list_u64 a) \<longrightarrow> hash_table a' k = None)
           \<and> (\<forall>v\<in>set hl. range_u64 a \<noteq> 0 \<and> (\<exists>x. v = x mod range_u64 a + lower a))
           \<and> a' = a\<lparr>state := LEX, hash_table := hash_table a', list_u64 := []\<rparr>"
proof -
  from set_state_LEX_first [OF fin init] obtain hl w1 ht where
    pop: "lex_populate (a\<lparr>state := LEX\<rparr>) (list_u64 a) 0 [] w = Some (Inr (hl, w1))" and
    asg: "lex_assign (list_u64 a) hl (hash_table a) w1 = Inr (ht, w')" and
    a': "a' = a\<lparr>state := LEX, hash_table := ht, list_u64 := []\<rparr>"
    by blast
  note p = lex_populate_result [OF pop]
  note q = lex_assign_result [OF asg]
  have dist: "distinct (list_u64 a)"
    using desc by (rule descending_distinct)
  have len: "length hl = length (list_u64 a)" using p q by simp
  have "strictly_descending hl" using p by (simp add: strictly_descending_def)
  moreover have "\<forall>i<length hl. hash_table a' (list_u64 a ! i) = Some (hl ! i)"
    using q dist len a' by simp
  moreover have "\<forall>k. k \<notin> set (list_u64 a) \<longrightarrow> hash_table a' k = None"
    using q empty a' by simp
  moreover have "\<forall>v\<in>set hl. range_u64 a \<noteq> 0 \<and> (\<exists>x. v = x mod range_u64 a + lower a)"
    using p by simp
  moreover have "a' = a\<lparr>state := LEX, hash_table := hash_table a', list_u64 := []\<rparr>"
    using a' by simp
  ultimately show ?thesis using len by blast
qed

lemma descending_nth:
  "strictly_descending xs \<Longrightarrow> i < length xs \<Longrightarrow> j < length xs \<Longrightarrow> xs ! i < xs ! j \<Longrightarrow> j < i"
proof (rule ccontr)
  assume d: "strictly_descending xs" and i: "i < length xs" and j: "j < length xs"
    and lt: "xs ! i < xs ! j" and n: "\<not> j < i"
  then consider "i = j" | "i < j" by linarith
  then show False
  proof cases
    case 1
    with lt show False by simp
  next
    case 2
    with d j have "xs ! i > xs ! j"
      by (simp add: descending_nth_less)
    with lt show False by simp
  qed
qed

lemma finalize_order_preserving:
  assumes fin: "anon_uint64_set_state a LEX w = Some (Inr (a', w'))"
    and init: "state a = INIT"
    and desc: "strictly_descending (list_u64 a)"
    and empty: "hash_table a = Map.empty"
  shows "order_preserving (hash_table a')"
proof -
  from finalize_pairing [OF assms] obtain hl where
    hl: "strictly_descending hl" and len: "length hl = length (list_u64 a)" and
    pair: "\<forall>i<length hl. hash_table a' (list_u64 a ! i) = Some (hl ! i)" and
    dom: "\<forall>k. k \<notin> set (list_u64 a) \<longrightarrow> hash_table a' k = None"
    by blast
  show ?thesis
    unfolding order_preserving_def
  proof (intro allI impI)
    fix x y u v
    assume h: "hash_table a' x = Some u \<and> hash_table a' y = Some v \<and> x < y"
    with dom have "x \<in> set (list_u64 a)" "y \<in> set (list_u64 a)" by auto
    then obtain i j where i: "i < length hl" "list_u64 a ! i = x"
      and j: "j < length hl" "list_u64 a ! j = y"
      using len by (auto simp: in_set_conv_nth)
    with pair h have u: "u = hl ! i" and v: "v = hl ! j" by auto
    have "j < i" using descending_nth [OF desc, of i j] i j h len by simp
    with hl i have "hl ! j > hl ! i"
      by (simp add: descending_nth_less)
    with u v show "u < v" by simp
  qed
qed

lemma set_used_result:
  "anon_uint64_set_used a num w =
     (case list_insert (list_u64 a) num w of (r, l, w2) \<Rightarrow>
        Some (Inr (if r \<ge> 0 then 0 else - 1, a\<lparr>list_u64 := l\<rparr>, w2)))"
  by (simp add: anon_uint64_set_used_def)

lemma set_used_frame:
  assumes "anon_uint64_set_used a num w = Some (Inr (r, a', w'))"
  shows "a' = a\<lparr>list_u64 := list_u64 a'\<rparr>
         \<and> (strictly_descending (list_u64 a) \<longrightarrow> strictly_descending (list_u64 a'))"
proof -
  obtain tmp l w2 where li: "list_insert (list_u64 a) num w = (tmp, l, w2)"
    by (cases "list_insert (list_u64 a) num w")
  with assms have "a' = a\<lparr>list_u64 := l\<rparr>" by (simp add: set_used_result)
  with list_insert_descending [OF _ li] show ?thesis by simp
qed

lemma map_unfold:
  "anon_uint64_map a num w =
     (if state a = LEX then Some (Inl Mode_conflict)
      else (case hash_table a num of
              Some h \<Rightarrow> Some (Inr ((0, h), a\<lparr>state := NON_LEX\<rparr>, w))
            | None \<Rightarrow>
                (case map_draw (a\<lparr>state := NON_LEX\<rparr>) w of
                   None \<Rightarrow> None
                 | Some (Inl e) \<Rightarrow> Some (Inl e)
                 | Some (Inr (anum, a2, w2)) \<Rightarrow>
                     (case malloc w2 of (p, w3) \<Rightarrow>
                        if \<not> p then Some (Inl Out_of_memory)
                        else Some (Inr ((0, anum),
                                        a2\<lparr>hash_table := (hash_table a2)(num \<mapsto> anum)\<rparr>,
                                        w3))))))"
  by (simp add: anon_uint64_map_def set_state_NON_LEX del: anon_uint64_set_state.simps)

lemma map_result:
  assumes "anon_uint64_map a num w = Some (Inr ((r, v), a', w'))"
  shows "r = 0 \<and> state a \<noteq> LEX \<and> hash_table a' num = Some v
         \<and> (\<forall>k. k \<noteq> num \<longrightarrow> hash_table a' k = hash_table a k)
         \<and> (hash_table a num = None \<or> hash_table a num = Some v)
         \<and> (hash_table a num = None \<longrightarrow>
               range_u64 a \<noteq> 0 \<and> (\<exists>x. v = x mod range_u64 a + lower a))
         \<and> state a' = NON_LEX \<and> lower a' = lower a \<and> upper a' = upper a
         \<and> range_u64 a' = range_u64 a
         \<and> (strictly_descending (list_u64 a) \<longrightarrow> strictly_descending (list_u64 a'))"
proof -
  let ?a1 = "a\<lparr>state := NON_LEX\<rparr>"
  have st: "state a \<noteq> LEX"
    using assms by (auto simp: map_unfold split: if_splits)
  show ?thesis
  proof (cases "hash_table a num")
    case (Some h)
    with assms st have "r = 0" "v = h" "a' = ?a1"
      by (simp_all add: map_unfold)
    with Some st show ?thesis by simp
  next
    case None
    with assms st obtain a2 w2 w3 where
      d: "map_draw ?a1 w = Some (Inr (v, a2, w2))" and
      a': "a' = a2\<lparr>hash_table := (hash_table a2)(num \<mapsto> v)\<rparr>" and r: "r = 0"
      by (auto simp: map_unfold split: option.splits sum.splits prod.splits if_splits)
    from map_draw_result [OF d] have
      m: "range_u64 a \<noteq> 0" "\<exists>x. v = x mod range_u64 a + lower a"
         "a2 = ?a1\<lparr>list_u64 := list_u64 a2\<rparr>"
         "strictly_descending (list_u64 a) \<longrightarrow> strictly_descending (list_u64 a2)"
      by simp_all
    have f: "hash_table a2 = hash_table a" "state a2 = NON_LEX" "lower a2 = lower a"
      "upper a2 = upper a" "range_u64 a2 = range_u64 a"
      using arg_cong [OF m(3), of hash_table] arg_cong [OF m(3), of state]
        arg_cong [OF m(3), of lower] arg_cong [OF m(3), of upper]
        arg_cong [OF m(3), of range_u64]
      by simp_all
    have "hash_table a' num = Some v"
      "\<forall>k. k \<noteq> num \<longrightarrow> hash_table a' k = hash_table a k"
      "list_u64 a' = list_u64 a2" "state a' = NON_LEX" "lower a' = lower a"
      "upper a' = upper a" "range_u64 a' = range_u64 a"
      using a' f by simp_all
    then show ?thesis using st r None m by simp
  qed
qed

lemma map_lex_result:
  assumes "anon_uint64_map_lex a num w = Some (Inr ((r, v), a', w'))"
  shows "r = 0 \<and> state a \<noteq> NON_LEX \<and> state a' = LEX \<and> hash_table a' num = Some v
         \<and> anon_uint64_set_state a LEX w = Some (Inr (a', w'))"
proof -
  from assms obtain a1 w1 where
    s: "anon_uint64_set_state a LEX w = Some (Inr (a1, w1))"
    by (auto simp: anon_uint64_map_lex_def split: option.splits sum.splits)
  with assms have "hash_table a1 num = Some v" "a' = a1" "w' = w1" "r = 0"
    by (auto simp: anon_uint64_map_lex_def split: option.splits)
  moreover have "state a \<noteq> NON_LEX" using s by (auto split: if_splits)
  moreover have "state a1 = LEX"
    using s by (cases "state a") (auto simp: Let_def split: option.splits sum.splits)
  ultimately show ?thesis using s by simp
qed

section \<open>Sequences of calls: what every call keeps\<close>

lemma new_result:
  "anon_uint64_new lo hi w = Inr (Some a, w') \<Longrightarrow>
     lo \<le> hi \<and> a = \<lparr>hash_table = Map.empty, list_u64 = [], state = INIT,
                      lower = lo, upper = hi, range_u64 = hi - lo + 1\<rparr>"
  by (auto simp: anon_uint64_new_def split: if_splits prod.splits)

lemma new_well_formed:
  "anon_uint64_new lo hi w = Inr (Some a, w') \<Longrightarrow>
     well_formed a \<and> lower a = lo \<and> upper a = hi \<and> state a = INIT"
  by (drule new_result) (simp add: well_formed_def strictly_descending_def)

lemma set_state_LEX_frame:
  assumes "anon_uint64_set_state a LEX w = Some (Inr (a', w'))"
  shows "state a \<noteq> NON_LEX \<and> state a' = LEX \<and> lower a' = lower a \<and> upper a' = upper a
         \<and> range_u64 a' = range_u64 a \<and> (state a = LEX \<longrightarrow> a' = a \<and> w' = w)
         \<and> (state a = INIT \<longrightarrow> list_u64 a' = [])"
proof (cases "state a")
  case INIT
  from set_state_LEX_first [OF assms INIT] INIT show ?thesis by auto
next
  case NON_LEX
  with assms show ?thesis by simp
next
  case LEX
  with assms show ?thesis by simp
qed

lemma set_state_LEX_well_formed:
  assumes fin: "anon_uint64_set_state a LEX w = Some (Inr (a', w'))" and wf: "well_formed a"
  shows "well_formed a'"
proof (cases "state a")
  case INIT
  have desc: "strictly_descending (list_u64 a)" and empty: "hash_table a = Map.empty"
    and lu: "lower a \<le> upper a" and rg: "range_u64 a = upper a - lower a + 1"
    using wf INIT by (simp_all add: well_formed_def)
  from finalize_pairing [OF fin INIT desc empty] obtain hl where
    len: "length hl = length (list_u64 a)" and
    pair: "\<forall>i<length hl. hash_table a' (list_u64 a ! i) = Some (hl ! i)" and
    dom: "\<forall>k. k \<notin> set (list_u64 a) \<longrightarrow> hash_table a' k = None" and
    img: "\<forall>v\<in>set hl. range_u64 a \<noteq> 0 \<and> (\<exists>x. v = x mod range_u64 a + lower a)"
    by blast
  note fr = set_state_LEX_frame [OF fin]
  have bounded: "\<forall>k v. hash_table a' k = Some v \<longrightarrow> lower a' \<le> v \<and> v \<le> upper a'"
  proof (intro allI impI)
    fix k v assume kv: "hash_table a' k = Some v"
    with dom have "k \<in> set (list_u64 a)" by auto
    then obtain i where "i < length hl" "list_u64 a ! i = k"
      using len by (auto simp: in_set_conv_nth)
    with pair kv have "v \<in> set hl" by auto
    with img obtain x where "range_u64 a \<noteq> 0" "v = x mod range_u64 a + lower a" by blast
    with draw_in_range [OF lu, of x] rg fr show "lower a' \<le> v \<and> v \<le> upper a'" by simp
  qed
  moreover have "order_preserving (hash_table a')"
    by (rule finalize_order_preserving [OF fin INIT desc empty])
  ultimately show ?thesis
    using fr INIT lu rg by (simp add: well_formed_def strictly_descending_def)
next
  case NON_LEX
  with fin show ?thesis by simp
next
  case LEX
  with fin wf show ?thesis by simp
qed

lemma do_call_well_formed:
  assumes step: "do_call a w c = Some (Inr (r, a', w'))" and wf: "well_formed a"
  shows "well_formed a' \<and> lower a' = lower a \<and> upper a' = upper a"
proof (cases c)
  case (Set_used num)
  with step obtain s where "anon_uint64_set_used a num w = Some (Inr (s, a', w'))"
    by (auto split: option.splits sum.splits)
  from set_used_frame [OF this] have
    eq: "a' = a\<lparr>list_u64 := list_u64 a'\<rparr>" and
    d: "strictly_descending (list_u64 a) \<longrightarrow> strictly_descending (list_u64 a')" by simp_all
  have f: "hash_table a' = hash_table a" "state a' = state a" "lower a' = lower a"
    "upper a' = upper a" "range_u64 a' = range_u64 a"
    using arg_cong [OF eq, of hash_table] arg_cong [OF eq, of state]
      arg_cong [OF eq, of lower] arg_cong [OF eq, of upper] arg_cong [OF eq, of range_u64]
    by simp_all
  with wf d show ?thesis by (simp add: well_formed_def)
next
  case (Map num)
  with step obtain s v where "anon_uint64_map a num w = Some (Inr ((s, v), a', w'))"
    by (auto split: option.splits sum.splits)
  note m = map_result [OF this]
  have lu: "lower a \<le> upper a" and rg: "range_u64 a = upper a - lower a + 1"
    using wf by (simp_all add: well_formed_def)
  have v: "lower a \<le> v \<and> v \<le> upper a"
  proof (cases "hash_table a num")
    case None
    with m obtain x where "range_u64 a \<noteq> 0" "v = x mod range_u64 a + lower a" by blast
    with draw_in_range [OF lu, of x] rg show ?thesis by simp
  next
    case (Some h)
    with m wf show ?thesis by (auto simp: well_formed_def)
  qed
  have "\<forall>k u. hash_table a' k = Some u \<longrightarrow> lower a \<le> u \<and> u \<le> upper a"
  proof (intro allI impI)
    fix k u assume ku: "hash_table a' k = Some u"
    show "lower a \<le> u \<and> u \<le> upper a"
    proof (cases "k = num")
      case True
      with ku m v show ?thesis by simp
    next
      case False
      with ku m wf show ?thesis by (auto simp: well_formed_def)
    qed
  qed
  with m wf show ?thesis by (simp add: well_formed_def)
next
  case (Map_lex num)
  with step obtain s v where "anon_uint64_map_lex a num w = Some (Inr ((s, v), a', w'))"
    by (auto split: option.splits sum.splits)
  from map_lex_result [OF this]
  have fin: "anon_uint64_set_state a LEX w = Some (Inr (a', w'))" by simp
  from set_state_LEX_well_formed [OF fin wf] set_state_LEX_frame [OF fin]
  show ?thesis by simp
qed

lemma run_length:
  "run a w cs = Some (Inr (rs, a', w')) \<Longrightarrow> length rs = length cs"
  by (induction cs arbitrary: a w rs)
     (auto split: option.splits sum.splits)

lemma run_Cons:
  "run a w (c # cs) = Some (Inr (rs, a', w')) \<longleftrightarrow>
     (\<exists>r a1 w1 rs'. do_call a w c = Some (Inr (r, a1, w1))
        \<and> run a1 w1 cs = Some (Inr (rs', a', w')) \<and> rs = r # rs')"
  by (auto split: option.splits sum.splits)

lemma run_well_formed:
  "run a w cs = Some (Inr (rs, a', w')) \<Longrightarrow> well_formed a \<Longrightarrow>
     well_formed a' \<and> lower a' = lower a \<and> upper a' = upper a"
proof (induction cs arbitrary: a w rs)
  case Nil
  then show ?case by simp
next
  case (Cons c cs)
  from Cons.prems(1) obtain r a1 w1 rs' where
    step: "do_call a w c = Some (Inr (r, a1, w1))" and
    rest: "run a1 w1 cs = Some (Inr (rs', a', w'))"
    unfolding run_Cons by blast
  from do_call_well_formed [OF step Cons.prems(2)] Cons.IH [OF rest] show ?case by simp
qed

lemma do_call_output:
  assumes "do_call a w c = Some (Inr (Anum s v, a', w'))"
  shows "s = 0 \<and> hash_table a' (case c of Map n \<Rightarrow> n | Map_lex n \<Rightarrow> n | Set_used n \<Rightarrow> n) = Some v
         \<and> (\<exists>n. c = Map n \<and> state a' = NON_LEX \<or> c = Map_lex n \<and> state a' = LEX)"
proof (cases c)
  case (Set_used num)
  with assms show ?thesis by (auto split: option.splits sum.splits)
next
  case (Map num)
  with assms have "anon_uint64_map a num w = Some (Inr ((s, v), a', w'))"
    by (auto split: option.splits sum.splits)
  from map_result [OF this] Map show ?thesis by simp
next
  case (Map_lex num)
  with assms have "anon_uint64_map_lex a num w = Some (Inr ((s, v), a', w'))"
    by (auto split: option.splits sum.splits)
  from map_lex_result [OF this] Map_lex show ?thesis by simp
qed

lemma run_outputs_bounded:
  "run a w cs = Some (Inr (rs, a', w')) \<Longrightarrow> well_formed a \<Longrightarrow> Anum s v \<in> set rs \<Longrightarrow>
     lower a \<le> v \<and> v \<le> upper a"
proof (induction cs arbitrary: a w rs)
  case Nil
  then show ?case by simp
next
  case (Cons c cs)
  from Cons.prems(1) obtain r a1 w1 rs' where
    step: "do_call a w c = Some (Inr (r, a1, w1))" and
    rest: "run a1 w1 cs = Some (Inr (rs', a', w'))" and rs: "rs = r # rs'"
    unfolding run_Cons by blast
  note wf1 = do_call_well_formed [OF step Cons.prems(2)]
  from Cons.prems(3) rs consider "r = Anum s v" | "Anum s v \<in> set rs'" by auto
  then show ?case
  proof cases
    case 1
    with do_call_output step obtain n where "hash_table a1 n = Some v" by blast
    with wf1 show ?thesis by (auto simp: well_formed_def)
  next
    case 2
    from Cons.IH [OF rest _ 2] wf1 show ?thesis by simp
  qed
qed



lemma do_call_LEX_frame:
  assumes step: "do_call a w c = Some (Inr (r, a', w'))" and st: "state a = LEX"
  shows "state a' = LEX \<and> hash_table a' = hash_table a"
proof (cases c)
  case (Set_used num)
  with step obtain s where "anon_uint64_set_used a num w = Some (Inr (s, a', w'))"
    by (auto split: option.splits sum.splits)
  from set_used_frame [OF this] have eq: "a' = a\<lparr>list_u64 := list_u64 a'\<rparr>" by simp
  have "hash_table a' = hash_table a" "state a' = state a"
    using arg_cong [OF eq, of hash_table] arg_cong [OF eq, of state] by simp_all
  with st show ?thesis by simp
next
  case (Map num)
  with step obtain s u where "anon_uint64_map a num w = Some (Inr ((s, u), a', w'))"
    by (auto split: option.splits sum.splits)
  from map_result [OF this] st show ?thesis by simp
next
  case (Map_lex num)
  with step obtain s u where "anon_uint64_map_lex a num w = Some (Inr ((s, u), a', w'))"
    by (auto split: option.splits sum.splits)
  from map_lex_result [OF this]
  have "anon_uint64_set_state a LEX w = Some (Inr (a', w'))" by simp
  from set_state_LEX_frame [OF this] st show ?thesis by simp
qed

lemma run_LEX_frame:
  "run a w cs = Some (Inr (rs, a', w')) \<Longrightarrow> state a = LEX \<Longrightarrow>
     state a' = LEX \<and> hash_table a' = hash_table a"
proof (induction cs arbitrary: a w rs)
  case Nil
  then show ?case by simp
next
  case (Cons c cs)
  from Cons.prems(1) obtain r a1 w1 rs' where
    step: "do_call a w c = Some (Inr (r, a1, w1))" and
    rest: "run a1 w1 cs = Some (Inr (rs', a', w'))"
    unfolding run_Cons by blast
  from do_call_LEX_frame [OF step Cons.prems(2)] Cons.IH [OF rest] show ?case by simp
qed

lemma run_lex_outputs:
  "run a w cs = Some (Inr (rs, a', w')) \<Longrightarrow> (Map_lex x, Anum s v) \<in> set (zip cs rs) \<Longrightarrow>
     state a' = LEX \<and> hash_table a' x = Some v"
proof (induction cs arbitrary: a w rs)
  case Nil
  then show ?case by simp
next
  case (Cons c cs)
  from Cons.prems(1) obtain r a1 w1 rs' where
    step: "do_call a w c = Some (Inr (r, a1, w1))" and
    rest: "run a1 w1 cs = Some (Inr (rs', a', w'))" and rs: "rs = r # rs'"
    unfolding run_Cons by blast
  from Cons.prems(2) rs
  consider "c = Map_lex x" "r = Anum s v" | "(Map_lex x, Anum s v) \<in> set (zip cs rs')"
    by auto
  then show ?case
  proof cases
    case 1
    with step have "anon_uint64_map_lex a x w = Some (Inr ((s, v), a1, w1))"
      by (auto split: option.splits sum.splits)
    from map_lex_result [OF this] have "state a1 = LEX" "hash_table a1 x = Some v"
      by simp_all
    with run_LEX_frame [OF rest] show ?thesis by simp
  next
    case 2
    from Cons.IH [OF rest 2] show ?thesis .
  qed
qed

section \<open>The finalization of the lex mode with more numbers than images\<close>

lemma count_check:
  fixes U :: uint64_t
  assumes "0 \<le> c" and "c < INT_MAX"
  shows "(word_of_int c + 1 :: uint64_t) > U \<longleftrightarrow> int (unat U) < c + 1"
proof -
  have w: "(word_of_int c + 1 :: uint64_t) = of_nat (nat (c + 1))"
    using assms(1) word_of_int_nat [of "c + 1", where 'a = 64] by simp
  have "nat (c + 1) < 2 ^ LENGTH(64)"
    using assms by (simp add: INT_MAX_def)
  then have "unat (of_nat (nat (c + 1)) :: uint64_t) = nat (c + 1)"
    by (simp add: unat_of_nat)
  with w have u: "unat (word_of_int c + 1 :: uint64_t) = nat (c + 1)" by simp
  show ?thesis
    unfolding word_less_nat_alt u using assms(1) by linarith
qed

lemma list_insert_world:
  "list_insert xs n w = (r, ys, w') \<Longrightarrow>
     rand_src w' = rand_src w \<and> rand_pos w' = rand_pos w \<and> heap_src w' = heap_src w"
  by (drule list_insert_cases) (auto simp: malloc_def)

lemma lex_populate_count:
  "lex_populate a ps count hl w = Some (Inr res) \<Longrightarrow> 0 \<le> count \<Longrightarrow> count \<le> INT_MAX \<Longrightarrow>
     count \<le> int (unat (upper a - lower a + 1)) \<Longrightarrow>
     count + int (length ps) \<le> int (unat (upper a - lower a + 1))"
proof (induction ps arbitrary: count hl w)
  case Nil
  then show ?case by simp
next
  case (Cons p ps)
  from Cons.prems(1) have ne: "count \<noteq> INT_MAX"
    and chk: "\<not> (word_of_int count + 1 :: uint64_t) > upper a - lower a + 1"
    by (auto split: if_splits)
  with Cons.prems(1) obtain hl1 w1 where
    r: "lex_populate a ps (count + 1) hl1 w1 = Some (Inr res)"
    by (auto split: option.splits sum.splits)
  from ne Cons.prems(3) have lt: "count < INT_MAX" by simp
  from chk count_check [OF Cons.prems(2) lt, of "upper a - lower a + 1"]
  have c1: "count + 1 \<le> int (unat (upper a - lower a + 1))" by linarith
  from Cons.IH [OF r _ _ c1] Cons.prems(2) lt show ?case by simp
qed

lemma unat_of_nat_below:
  fixes m :: uint64_t
  assumes "n < unat m"
  shows "unat (of_nat n :: uint64_t) = n"
proof -
  have "unat m < 2 ^ LENGTH(64)" by (rule unsigned_less)
  with assms have "n < 2 ^ LENGTH(64)" by linarith
  then show ?thesis by (simp add: unat_of_nat)
qed

lemma free_residue_exists:
  fixes m lo :: uint64_t
  assumes "length hl < unat m"
  shows "\<exists>v. v < m \<and> v + lo \<notin> set hl"
proof -
  let ?f = "\<lambda>n. (of_nat n :: uint64_t) + lo"
  have inj: "inj_on ?f {..<unat m}"
  proof (rule inj_onI)
    fix x y assume x: "x \<in> {..<unat m}" and y: "y \<in> {..<unat m}" and e: "?f x = ?f y"
    from e have "(of_nat x :: uint64_t) = of_nat y" by simp
    then have "unat (of_nat x :: uint64_t) = unat (of_nat y :: uint64_t)" by simp
    with x y show "x = y" by (simp add: unat_of_nat_below)
  qed
  have "card (?f ` {..<unat m}) = unat m" using inj by (simp add: card_image)
  moreover have "card (set hl) \<le> length hl" by (rule card_length)
  ultimately have "\<not> ?f ` {..<unat m} \<subseteq> set hl"
    using assms card_mono [of "set hl" "?f ` {..<unat m}"] by auto
  then obtain n where n: "n < unat m" and out: "?f n \<notin> set hl" by auto
  from n have "(of_nat n :: uint64_t) < m"
    by (simp add: word_less_nat_alt unat_of_nat_below)
  with out show ?thesis by blast
qed

lemma lex_draw_terminates:
  assumes ne: "range_u64 a \<noteq> 0"
  shows "rand_pos w \<le> j \<Longrightarrow> rand_src w j mod range_u64 a + lower a \<notin> set hl \<Longrightarrow>
         \<exists>hl' w'. lex_draw a hl w = Some (Inr (hl', w')) \<and> rand_src w' = rand_src w"
proof (induction "j - rand_pos w" arbitrary: w)
  case 0
  let ?v = "rand_src w (rand_pos w) mod range_u64 a + lower a"
  let ?w1 = "w\<lparr>rand_pos := Suc (rand_pos w)\<rparr>"
  from 0 have j: "j = rand_pos w" by simp
  obtain r l w2 where li: "list_insert hl ?v ?w1 = (r, l, w2)"
    by (cases "list_insert hl ?v ?w1")
  from list_insert_cases [OF li] "0.prems"(2) j have "r \<noteq> 1" by auto
  moreover from list_insert_world [OF li] have "rand_src w2 = rand_src w" by simp
  ultimately show ?case
    using ne li by (subst lex_draw_step) simp
next
  case (Suc k)
  let ?v = "rand_src w (rand_pos w) mod range_u64 a + lower a"
  let ?w1 = "w\<lparr>rand_pos := Suc (rand_pos w)\<rparr>"
  obtain r l w2 where li: "list_insert hl ?v ?w1 = (r, l, w2)"
    by (cases "list_insert hl ?v ?w1")
  show ?case
  proof (cases "r = 1")
    case False
    moreover from list_insert_world [OF li] have "rand_src w2 = rand_src w" by simp
    ultimately show ?thesis
      using ne li by (subst lex_draw_step) simp
  next
    case True
    with list_insert_cases [OF li] have w2: "w2 = ?w1" by auto
    have k: "k = j - rand_pos ?w1" using Suc.hyps(2) by simp
    have le: "rand_pos ?w1 \<le> j" using Suc.hyps(2) by simp
    have out: "rand_src ?w1 j mod range_u64 a + lower a \<notin> set hl"
      using Suc.prems(2) by simp
    from Suc.hyps(1) [OF k le out] obtain hl' w' where
      "lex_draw a hl ?w1 = Some (Inr (hl', w'))" "rand_src w' = rand_src w" by auto
    with True w2 ne li show ?thesis
      by (subst lex_draw_step) simp
  qed
qed

lemma lex_populate_too_many:
  assumes fair: "every_residue_recurs rs (range_u64 a)"
    and rg: "range_u64 a = upper a - lower a + 1"
    and small: "int (unat (upper a - lower a + 1)) < INT_MAX"
  shows "rand_src w = rs \<Longrightarrow> 0 \<le> count \<Longrightarrow> int (length hl) \<le> count \<Longrightarrow>
         count \<le> int (unat (upper a - lower a + 1)) \<Longrightarrow>
         int (unat (upper a - lower a + 1)) < count + int (length ps) \<Longrightarrow>
         lex_populate a ps count hl w = Some (Inl Too_many_numbers)"
proof (induction ps arbitrary: count hl w)
  case Nil
  then show ?case by simp
next
  case (Cons p ps)
  let ?U = "upper a - lower a + 1"
  from Cons.prems(4) small have lt: "count < INT_MAX" by simp
  note chk = count_check [OF Cons.prems(2) lt, of ?U]
  show ?case
  proof (cases "int (unat ?U) < count + 1")
    case True
    with chk lt show ?thesis by simp
  next
    case False
    with chk have nochk: "\<not> (word_of_int count + 1 :: uint64_t) > ?U" by simp
    from False Cons.prems(3) have "length hl < unat ?U" by linarith
    then have len: "length hl < unat (range_u64 a)" by (simp only: rg)
    then have ne: "range_u64 a \<noteq> 0" by auto
    from free_residue_exists [OF len, of "lower a"] obtain v where
      v: "v < range_u64 a" "v + lower a \<notin> set hl" by blast
    from fair v(1) obtain j where j: "rand_pos w \<le> j" "rs j mod range_u64 a = v"
      unfolding every_residue_recurs_def by blast
    with v(2) Cons.prems(1)
    have "rand_src w j mod range_u64 a + lower a \<notin> set hl" by simp
    from lex_draw_terminates [OF ne j(1) this] obtain hl1 w1 where
      d: "lex_draw a hl w = Some (Inr (hl1, w1))" and src: "rand_src w1 = rand_src w"
      by blast
    from lex_draw_result [OF d] have "length hl1 \<le> Suc (length hl)" by auto
    with Cons.prems(3) have l1: "int (length hl1) \<le> count + 1" by simp
    have "lex_populate a ps (count + 1) hl1 w1 = Some (Inl Too_many_numbers)"
      using Cons.IH [of w1 "count + 1" hl1] src Cons.prems(1,2,5) l1 False by simp
    with d nochk lt show ?thesis by simp
  qed
qed

lemma run_set_used:
  "run a w (map Set_used us) = Some (Inr (rs, a', w')) \<Longrightarrow>
     state a' = state a \<and> hash_table a' = hash_table a
       \<and> ((\<forall>r\<in>set rs. r = Status 0) \<longrightarrow> set (list_u64 a') = set (list_u64 a) \<union> set us)"
proof (induction us arbitrary: a w rs)
  case Nil
  then show ?case by simp
next
  case (Cons u us)
  from Cons.prems have "run a w (Set_used u # map Set_used us) = Some (Inr (rs, a', w'))"
    by (simp only: list.map)
  then obtain r a1 w1 rs' where
    step: "do_call a w (Set_used u) = Some (Inr (r, a1, w1))" and
    rest: "run a1 w1 (map Set_used us) = Some (Inr (rs', a', w'))" and rs: "rs = r # rs'"
    unfolding run_Cons by blast
  obtain tmp l w2 where li: "list_insert (list_u64 a) u w = (tmp, l, w2)"
    by (cases "list_insert (list_u64 a) u w")
  with step have a1: "a1 = a\<lparr>list_u64 := l\<rparr>" and r: "r = Status (if tmp \<ge> 0 then 0 else - 1)"
    by (simp_all add: set_used_result)
  have "r = Status 0 \<longrightarrow> set l = insert u (set (list_u64 a))"
    using list_insert_cases [OF li] r by auto
  with Cons.IH [OF rest] a1 rs show ?case by auto
qed

lemma counting_recurs: "every_residue_recurs counting m"
  unfolding every_residue_recurs_def
proof (intro allI impI)
  fix i and v :: uint64_t
  assume "v < m"
  then have "v mod m = v" by (simp add: word_mod_less_divisor mod_word_less)
  have "(word_of_nat (2 ^ 64 * i) :: uint64_t) = 0"
    by (simp only: word_of_nat_eq_0_iff) simp
  then have "counting (2 ^ 64 * i + unat v) = v"
    by (simp only: counting_def of_nat_add) simp
  moreover have "i \<le> 2 ^ 64 * i + unat v" by simp
  ultimately show "\<exists>j\<ge>i. counting j mod m = v"
    using \<open>v mod m = v\<close> by metis
qed

section \<open>The replies depend on the world through its future only\<close>

lemma same_future_sym: "same_future w v \<Longrightarrow> same_future v w"
  by (simp add: same_future_def)

lemma same_future_rand:
  assumes "same_future w v"
  shows "rand_src w (rand_pos w) = rand_src v (rand_pos v)
         \<and> same_future (w\<lparr>rand_pos := Suc (rand_pos w)\<rparr>) (v\<lparr>rand_pos := Suc (rand_pos v)\<rparr>)"
proof -
  from assms have r: "\<And>n. rand_src w (rand_pos w + n) = rand_src v (rand_pos v + n)"
    and h: "\<And>n. heap_src w (heap_pos w + n) = heap_src v (heap_pos v + n)"
    by (simp_all add: same_future_def)
  from r [of 0] r [of "Suc _"] h show ?thesis by (simp add: same_future_def)
qed

lemma same_future_malloc:
  assumes "same_future w v"
  shows "fst (malloc w) = fst (malloc v) \<and> same_future (snd (malloc w)) (snd (malloc v))"
proof -
  from assms have r: "\<And>n. rand_src w (rand_pos w + n) = rand_src v (rand_pos v + n)"
    and h: "\<And>n. heap_src w (heap_pos w + n) = heap_src v (heap_pos v + n)"
    by (simp_all add: same_future_def)
  from h [of 0] h [of "Suc _"] r show ?thesis by (simp add: same_future_def malloc_def)
qed

lemma same_future_list_insert:
  assumes "same_future w v" and "list_insert xs n w = (r, ys, w')"
  shows "\<exists>v'. list_insert xs n v = (r, ys, v') \<and> same_future w' v'"
  using assms(2)
proof (induction xs arbitrary: ys)
  case Nil
  with same_future_malloc [OF assms(1)] show ?case
    by (cases "malloc w"; cases "malloc v") (auto split: if_splits)
next
  case (Cons p ps)
  consider "n = p" | "n \<noteq> p" "n > p" | "n \<noteq> p" "\<not> n > p" by blast
  then show ?case
  proof cases
    case 1
    with Cons.prems assms(1) show ?thesis by auto
  next
    case 2
    with Cons.prems same_future_malloc [OF assms(1)] show ?thesis
      by (cases "malloc w"; cases "malloc v") (auto split: if_splits)
  next
    case 3
    obtain r1 ps1 w2 where rec: "list_insert ps n w = (r1, ps1, w2)"
      by (cases "list_insert ps n w")
    with 3 Cons.prems have eq: "r = r1" "ys = p # ps1" "w' = w2" by simp_all
    from Cons.IH [of ps1] rec eq obtain v' where
      "list_insert ps n v = (r, ps1, v')" "same_future w' v'" by auto
    with 3 eq show ?thesis by simp
  qed
qed

lemma same_future_map_draw_Some:
  "map_draw a w = Some y \<Longrightarrow>
     \<forall>v. same_future w v \<longrightarrow> (\<exists>y'. map_draw a v = Some y' \<and> alike (Some y) (Some y'))"
proof (induction a w y rule: map_draw.raw_induct [rotated 1, consumes 1])
  case (1 f a w y)
  show ?case
  proof (intro allI impI)
    fix v assume sf: "same_future w v"
    show "\<exists>y'. map_draw a v = Some y' \<and> alike (Some y) (Some y')"
    proof (cases "range_u64 a = 0")
      case True
      with "1.hyps" have "y = Inl Division_by_zero"
        by (simp add: generate_random_number_def RAND_bytes_def)
      moreover from True have "map_draw a v = Some (Inl Division_by_zero)"
        by (subst map_draw_step) simp
      ultimately show ?thesis by simp
    next
      case ne: False
      let ?x = "rand_src w (rand_pos w) mod range_u64 a + lower a"
      let ?w1 = "w\<lparr>rand_pos := Suc (rand_pos w)\<rparr>"
      let ?v1 = "v\<lparr>rand_pos := Suc (rand_pos v)\<rparr>"
      from same_future_rand [OF sf] have
        x: "rand_src v (rand_pos v) mod range_u64 a + lower a = ?x" and
        sf1: "same_future ?w1 ?v1" by simp_all
      obtain tmp l w2 where li: "list_insert (list_u64 a) ?x ?w1 = (tmp, l, w2)"
        by (cases "list_insert (list_u64 a) ?x ?w1")
      from same_future_list_insert [OF sf1 li] obtain v2 where
        li': "list_insert (list_u64 a) ?x ?v1 = (tmp, l, v2)" and sf2: "same_future w2 v2"
        by blast
      have body: "(if \<not> 0 \<le> tmp then Some (Inl Out_of_memory)
                   else if tmp = 1 then f (a\<lparr>list_u64 := l\<rparr>) w2
                   else Some (Inr (?x, a\<lparr>list_u64 := l\<rparr>, w2))) = Some y"
        using "1.hyps" ne li by (simp add: generate_random_number_def RAND_bytes_def)
      have step: "map_draw a v =
          (if tmp = - 1 then Some (Inl Out_of_memory)
           else if tmp = 1 then map_draw a v2
           else Some (Inr (?x, a\<lparr>list_u64 := l\<rparr>, v2)))"
        using ne li' x by (subst map_draw_step) simp
      from list_insert_cases [OF li]
      consider "tmp = 1" "l = list_u64 a" | "tmp = 0" | "tmp = - 1" by auto
      then show ?thesis
      proof cases
        case 1
        with body have "f a w2 = Some y" by simp
        from "1.IH" [OF this] sf2 obtain y' where
          "map_draw a v2 = Some y'" "alike (Some y) (Some y')" by blast
        with step 1 show ?thesis by simp
      next
        case 2
        with body have "y = Inr (?x, a\<lparr>list_u64 := l\<rparr>, w2)" by simp
        with step 2 sf2 show ?thesis by simp
      next
        case 3
        with body have "y = Inl Out_of_memory" by simp
        with step 3 show ?thesis by simp
      qed
    qed
  qed
qed

lemma same_future_map_draw:
  assumes "same_future w v"
  shows "alike (map_draw a w) (map_draw a v)"
proof (cases "map_draw a w")
  case (Some y)
  from same_future_map_draw_Some [OF this] assms Some show ?thesis by auto
next
  case None
  show ?thesis
  proof (cases "map_draw a v")
    case (Some y')
    from same_future_map_draw_Some [OF this] same_future_sym [OF assms] None
    show ?thesis by auto
  next
    case n: None
    with None show ?thesis by simp
  qed
qed

lemma same_future_lex_draw_Some:
  "lex_draw a hl w = Some y \<Longrightarrow>
     \<forall>v. same_future w v \<longrightarrow> (\<exists>y'. lex_draw a hl v = Some y' \<and> alike_lists (Some y) (Some y'))"
proof (induction a hl w y rule: lex_draw.raw_induct [rotated 1, consumes 1])
  case (1 f a hl w y)
  show ?case
  proof (intro allI impI)
    fix v assume sf: "same_future w v"
    show "\<exists>y'. lex_draw a hl v = Some y' \<and> alike_lists (Some y) (Some y')"
    proof (cases "range_u64 a = 0")
      case True
      with "1.hyps" have "y = Inl Division_by_zero"
        by (simp add: generate_random_number_def RAND_bytes_def)
      moreover from True have "lex_draw a hl v = Some (Inl Division_by_zero)"
        by (subst lex_draw_step) simp
      ultimately show ?thesis by simp
    next
      case ne: False
      let ?x = "rand_src w (rand_pos w) mod range_u64 a + lower a"
      let ?w1 = "w\<lparr>rand_pos := Suc (rand_pos w)\<rparr>"
      let ?v1 = "v\<lparr>rand_pos := Suc (rand_pos v)\<rparr>"
      from same_future_rand [OF sf] have
        x: "rand_src v (rand_pos v) mod range_u64 a + lower a = ?x" and
        sf1: "same_future ?w1 ?v1" by simp_all
      obtain r l w2 where li: "list_insert hl ?x ?w1 = (r, l, w2)"
        by (cases "list_insert hl ?x ?w1")
      from same_future_list_insert [OF sf1 li] obtain v2 where
        li': "list_insert hl ?x ?v1 = (r, l, v2)" and sf2: "same_future w2 v2"
        by blast
      have body: "(if r = 1 then f a l w2 else Some (Inr (l, w2))) = Some y"
        using "1.hyps" ne li by (simp add: generate_random_number_def RAND_bytes_def)
      have step: "lex_draw a hl v = (if r = 1 then lex_draw a hl v2 else Some (Inr (l, v2)))"
        using ne li' x by (subst lex_draw_step) simp
      show ?thesis
      proof (cases "r = 1")
        case True
        with list_insert_cases [OF li] have "l = hl" by auto
        with body True have "f a hl w2 = Some y" by simp
        from "1.IH" [OF this] sf2 obtain y' where
          "lex_draw a hl v2 = Some y'" "alike_lists (Some y) (Some y')" by blast
        with step True show ?thesis by simp
      next
        case False
        with body have "y = Inr (l, w2)" by simp
        with step False sf2 show ?thesis by simp
      qed
    qed
  qed
qed

lemma same_future_lex_draw:
  assumes "same_future w v"
  shows "alike_lists (lex_draw a hl w) (lex_draw a hl v)"
proof (cases "lex_draw a hl w")
  case (Some y)
  from same_future_lex_draw_Some [OF this] assms Some show ?thesis by auto
next
  case None
  show ?thesis
  proof (cases "lex_draw a hl v")
    case (Some y')
    from same_future_lex_draw_Some [OF this] same_future_sym [OF assms] None
    show ?thesis by auto
  next
    case n: None
    with None show ?thesis by simp
  qed
qed

lemma alike_lists_cases:
  assumes "rel_option (rel_sum (=) (rel_prod (=) same_future)) x y"
  obtains "x = None" "y = None"
  | e where "x = Some (Inl e)" "y = Some (Inl e)"
  | l w v where "x = Some (Inr (l, w))" "y = Some (Inr (l, v))" "same_future w v"
proof (cases x)
  case None
  with assms that(1) show ?thesis by simp
next
  case (Some r)
  with assms obtain r' where y: "y = Some r'"
    and r: "rel_sum (=) (rel_prod (=) same_future) r r'"
    by (auto simp: option_rel_Some1)
  from r consider (L) e where "r = Inl e" "r' = Inl e"
    | (R) p p' where "r = Inr p" "r' = Inr p'" "rel_prod (=) same_future p p'"
    by (cases r; cases r') auto
  then show ?thesis
  proof cases
    case L
    with Some y that(2) show ?thesis by simp
  next
    case R
    with Some y that(3) show ?thesis by (cases p; cases p') simp
  qed
qed

lemma alike_cases:
  assumes "alike x y"
  obtains "x = None" "y = None"
  | e where "x = Some (Inl e)" "y = Some (Inl e)"
  | r a w v where "x = Some (Inr (r, a, w))" "y = Some (Inr (r, a, v))" "same_future w v"
proof (cases x)
  case None
  with assms that(1) show ?thesis by simp
next
  case (Some r)
  with assms obtain r' where y: "y = Some r'"
    and r: "rel_sum (=) (rel_prod (=) (rel_prod (=) same_future)) r r'"
    by (auto simp: option_rel_Some1)
  from r consider (L) e where "r = Inl e" "r' = Inl e"
    | (R) p p' where "r = Inr p" "r' = Inr p'"
        "rel_prod (=) (rel_prod (=) same_future) p p'"
    by (cases r; cases r') auto
  then show ?thesis
  proof cases
    case L
    with Some y that(2) show ?thesis by simp
  next
    case R
    with Some y that(3) show ?thesis by (cases p; cases p') auto
  qed
qed

lemma same_future_lex_populate:
  "same_future w v \<Longrightarrow>
     alike_lists (lex_populate a ps count hl w) (lex_populate a ps count hl v)"
proof (induction ps arbitrary: count hl w v)
  case Nil
  then show ?case by simp
next
  case (Cons p ps)
  from same_future_lex_draw [OF Cons.prems, of a hl] show ?case
  proof (cases rule: alike_lists_cases)
    case 1
    then show ?thesis by simp
  next
    case (2 e)
    then show ?thesis by simp
  next
    case (3 l w1 v1)
    with Cons.IH [OF 3(3), of "count + 1" l] show ?thesis by simp
  qed
qed

lemma same_future_lex_assign:
  "same_future w v \<Longrightarrow>
     rel_sum (=) (rel_prod (=) same_future) (lex_assign ps qs ht w) (lex_assign ps qs ht v)"
proof (induction ps arbitrary: qs ht w v)
  case Nil
  then show ?case by simp
next
  case (Cons p ps)
  obtain n w1 where mw: "malloc w = (n, w1)" by (cases "malloc w")
  obtain n' v1 where mv: "malloc v = (n', v1)" by (cases "malloc v")
  from same_future_malloc [OF Cons.prems] mw mv have n: "n' = n" and sf: "same_future w1 v1"
    by simp_all
  show ?case
  proof (cases qs)
    case Nil
    with mw mv n show ?thesis by simp
  next
    case (Cons q qs')
    have l: "lex_assign (p # ps) qs ht w =
        (if \<not> n then Inl Out_of_memory else lex_assign ps qs' (ht(p \<mapsto> q)) w1)"
      using mw Cons by simp
    have r: "lex_assign (p # ps) qs ht v =
        (if \<not> n then Inl Out_of_memory else lex_assign ps qs' (ht(p \<mapsto> q)) v1)"
      using mv n Cons by simp
    show ?thesis
    proof (cases n)
      case True
      from Cons.IH [OF sf, of qs' "ht(p \<mapsto> q)"] show ?thesis
        by (simp only: l r True not_True_eq_False if_False)
    next
      case False
      show ?thesis unfolding l r using False by simp
    qed
  qed
qed

lemma same_future_set_state:
  assumes "same_future w v"
  shows "rel_option (rel_sum (=) (rel_prod (=) same_future))
           (anon_uint64_set_state a st w) (anon_uint64_set_state a st v)"
proof (cases st)
  case INIT
  with assms show ?thesis by simp
next
  case NON_LEX
  with assms show ?thesis by simp
next
  case LEX
  let ?a1 = "a\<lparr>state := LEX\<rparr>"
  show ?thesis
  proof (cases "state a = INIT")
    case False
    with LEX assms show ?thesis by simp
  next
    case True
    from same_future_lex_populate [OF assms, of ?a1 "list_u64 a" 0 "[]"] show ?thesis
    proof (cases rule: alike_lists_cases)
      case 1
      with LEX True show ?thesis by simp
    next
      case (2 e)
      with LEX True show ?thesis by simp
    next
      case (3 l w1 v1)
      from same_future_lex_assign [OF 3(3), of "list_u64 a" l "hash_table a"]
      consider (L) e where "lex_assign (list_u64 a) l (hash_table a) w1 = Inl e"
          "lex_assign (list_u64 a) l (hash_table a) v1 = Inl e"
        | (R) ht w2 v2 where "lex_assign (list_u64 a) l (hash_table a) w1 = Inr (ht, w2)"
          "lex_assign (list_u64 a) l (hash_table a) v1 = Inr (ht, v2)" "same_future w2 v2"
        by (cases "lex_assign (list_u64 a) l (hash_table a) w1";
            cases "lex_assign (list_u64 a) l (hash_table a) v1") auto
      then show ?thesis
      proof cases
        case L
        with 3 LEX True show ?thesis by simp
      next
        case R
        with 3 LEX True show ?thesis by simp
      qed
    qed
  qed
qed

lemma same_future_set_used:
  assumes "same_future w v"
  shows "alike (anon_uint64_set_used a num w) (anon_uint64_set_used a num v)"
proof -
  obtain r l w2 where li: "list_insert (list_u64 a) num w = (r, l, w2)"
    by (cases "list_insert (list_u64 a) num w")
  from same_future_list_insert [OF assms li] obtain v2 where
    "list_insert (list_u64 a) num v = (r, l, v2)" "same_future w2 v2" by blast
  with li show ?thesis by (simp add: set_used_result)
qed

lemma same_future_map:
  assumes "same_future w v"
  shows "alike (anon_uint64_map a num w) (anon_uint64_map a num v)"
proof (cases "state a = LEX")
  case True
  then show ?thesis by (simp add: map_unfold)
next
  case st: False
  show ?thesis
  proof (cases "hash_table a num")
    case (Some h)
    with st assms show ?thesis by (simp add: map_unfold)
  next
    case None
    from same_future_map_draw [OF assms, of "a\<lparr>state := NON_LEX\<rparr>"] show ?thesis
    proof (cases rule: alike_cases)
      case 1
      with st None show ?thesis by (simp add: map_unfold)
    next
      case (2 e)
      with st None show ?thesis by (simp add: map_unfold)
    next
      case (3 anum a2 w2 v2)
      obtain p w3 where mw: "malloc w2 = (p, w3)" by (cases "malloc w2")
      obtain p' v3 where mv: "malloc v2 = (p', v3)" by (cases "malloc v2")
      from same_future_malloc [OF 3(3)] mw mv have "p' = p" "same_future w3 v3" by simp_all
      with 3 st None mw mv show ?thesis by (simp add: map_unfold)
    qed
  qed
qed

lemma same_future_map_lex:
  assumes "same_future w v"
  shows "alike (anon_uint64_map_lex a num w) (anon_uint64_map_lex a num v)"
  using same_future_set_state [OF assms, of a LEX]
proof (cases rule: alike_lists_cases)
  case 1
  then show ?thesis by (simp add: anon_uint64_map_lex_def)
next
  case (2 e)
  then show ?thesis by (simp add: anon_uint64_map_lex_def)
next
  case (3 a1 w1 v1)
  then show ?thesis by (cases "hash_table a1 num") (simp_all add: anon_uint64_map_lex_def)
qed

lemma same_future_do_call:
  assumes "same_future w v"
  shows "alike (do_call a w c) (do_call a v c)"
proof (cases c)
  case (Set_used num)
  from same_future_set_used [OF assms, of a num] show ?thesis
    by (cases rule: alike_cases) (simp_all add: Set_used)
next
  case (Map num)
  from same_future_map [OF assms, of a num] show ?thesis
    by (cases rule: alike_cases) (auto simp: Map)
next
  case (Map_lex num)
  from same_future_map_lex [OF assms, of a num] show ?thesis
    by (cases rule: alike_cases) (auto simp: Map_lex)
qed

lemma same_future_run:
  "same_future w v \<Longrightarrow> alike (run a w cs) (run a v cs)"
proof (induction cs arbitrary: a w v)
  case Nil
  then show ?case by simp
next
  case (Cons c cs)
  from same_future_do_call [OF Cons.prems, of a c] show ?case
  proof (cases rule: alike_cases)
    case 1
    then show ?thesis by simp
  next
    case (2 e)
    then show ?thesis by simp
  next
    case (3 r a1 w1 v1)
    from Cons.IH [OF 3(3), of a1] show ?thesis
      by (cases rule: alike_cases) (simp_all add: 3)
  qed
qed

section \<open>The table after the finalization, in ascending order\<close>

lemma run_append:
  "run a w (cs @ ds) = Some (Inr (rs, a', w')) \<longleftrightarrow>
     (\<exists>rs1 a1 w1 rs2. run a w cs = Some (Inr (rs1, a1, w1))
        \<and> run a1 w1 ds = Some (Inr (rs2, a', w')) \<and> rs = rs1 @ rs2)"
proof (induction cs arbitrary: a w rs)
  case Nil
  then show ?case by simp
next
  case (Cons c cs)
  show ?case
    unfolding append_Cons run_Cons Cons.IH
    by auto
qed

lemma ascending_used:
  assumes "strictly_descending xs"
  shows "rev xs = sorted_list_of_set (set xs)"
proof -
  from assms have "sorted_wrt (<) (rev xs)"
    by (simp add: strictly_descending_def sorted_wrt_rev)
  then have "sorted (rev xs)" "distinct (rev xs)"
    by (simp_all add: strict_sorted_iff)
  then have "sorted_list_of_set (set (rev xs)) = rev xs"
    by (rule sorted_list_of_set.idem_if_sorted_distinct)
  then show ?thesis by simp
qed

section \<open>The finalization returns\<close>

lemma malloc_enough:
  assumes "enough_memory w"
  shows "malloc w = (True, w\<lparr>heap_pos := Suc (heap_pos w)\<rparr>)
         \<and> enough_memory (w\<lparr>heap_pos := Suc (heap_pos w)\<rparr>)"
proof -
  from assms have h: "\<And>i. heap_src w (heap_pos w + i)" by (simp add: enough_memory_def)
  from h [of 0] h [of "Suc _"] show ?thesis by (simp add: malloc_def enough_memory_def)
qed

lemma enough_memory_rand [simp]:
  "enough_memory (w\<lparr>rand_pos := k\<rparr>) = enough_memory w"
  by (simp add: enough_memory_def)

lemma list_insert_enough:
  assumes "enough_memory w" and "list_insert xs n w = (r, ys, w')"
  shows "r \<noteq> - 1 \<and> enough_memory w' \<and> heap_src w' = heap_src w"
  using list_insert_cases [OF assms(2)] malloc_enough [OF assms(1)] assms(1)
  by auto

lemma lex_draw_total:
  assumes ne: "range_u64 a \<noteq> 0" and desc: "strictly_descending hl"
  shows "rand_pos w \<le> j \<Longrightarrow> rand_src w j mod range_u64 a + lower a \<notin> set hl \<Longrightarrow>
         enough_memory w \<Longrightarrow>
         \<exists>hl' w'. lex_draw a hl w = Some (Inr (hl', w'))
           \<and> rand_src w' = rand_src w \<and> heap_src w' = heap_src w \<and> enough_memory w'
           \<and> rand_pos w < rand_pos w'
           \<and> (\<forall>i. rand_pos w \<le> i \<and> i < rand_pos w' - 1 \<longrightarrow>
                  rand_src w i mod range_u64 a + lower a \<in> set hl)
           \<and> rand_src w (rand_pos w' - 1) mod range_u64 a + lower a \<notin> set hl
           \<and> set hl' = insert (rand_src w (rand_pos w' - 1) mod range_u64 a + lower a) (set hl)
           \<and> length hl' = Suc (length hl) \<and> strictly_descending hl'"
proof (induction "j - rand_pos w" arbitrary: w)
  case 0
  let ?v = "rand_src w (rand_pos w) mod range_u64 a + lower a"
  let ?w1 = "w\<lparr>rand_pos := Suc (rand_pos w)\<rparr>"
  from 0 have j: "j = rand_pos w" by simp
  with "0.prems"(2) have fresh: "?v \<notin> set hl" by simp
  obtain r l w2 where li: "list_insert hl ?v ?w1 = (r, l, w2)"
    by (cases "list_insert hl ?v ?w1")
  have em: "enough_memory ?w1" using "0.prems"(3) by simp
  from list_insert_cases [OF li] fresh list_insert_enough [OF em li]
  have r: "r = 0" and l: "set l = insert ?v (set hl)" "length l = Suc (length hl)" by auto
  from list_insert_world [OF li] list_insert_enough [OF em li]
  have w2: "rand_src w2 = rand_src w" "rand_pos w2 = Suc (rand_pos w)"
    "heap_src w2 = heap_src w" "enough_memory w2" by simp_all
  have "lex_draw a hl w = Some (Inr (l, w2))"
    using ne li r by (subst lex_draw_step) simp
  with w2 l fresh list_insert_descending [OF desc li] show ?case by auto
next
  case (Suc k)
  let ?v = "rand_src w (rand_pos w) mod range_u64 a + lower a"
  let ?w1 = "w\<lparr>rand_pos := Suc (rand_pos w)\<rparr>"
  obtain r l w2 where li: "list_insert hl ?v ?w1 = (r, l, w2)"
    by (cases "list_insert hl ?v ?w1")
  have em: "enough_memory ?w1" using Suc.prems(3) by simp
  show ?case
  proof (cases "?v \<in> set hl")
    case False
    from list_insert_cases [OF li] False list_insert_enough [OF em li]
    have r: "r = 0" and l: "set l = insert ?v (set hl)" "length l = Suc (length hl)" by auto
    from list_insert_world [OF li] list_insert_enough [OF em li]
    have w2: "rand_src w2 = rand_src w" "rand_pos w2 = Suc (rand_pos w)"
      "heap_src w2 = heap_src w" "enough_memory w2" by simp_all
    have "lex_draw a hl w = Some (Inr (l, w2))"
      using ne li r by (subst lex_draw_step) simp
    with w2 l False list_insert_descending [OF desc li] show ?thesis by auto
  next
    case True
    from list_insert_present [OF desc True, of ?w1] li have r: "r = 1" and w2: "w2 = ?w1"
      by simp_all
    have k: "k = j - rand_pos ?w1" using Suc.hyps(2) by simp
    have le: "rand_pos ?w1 \<le> j" using Suc.hyps(2) by simp
    have out: "rand_src ?w1 j mod range_u64 a + lower a \<notin> set hl"
      using Suc.prems(2) by simp
    from Suc.hyps(1) [OF k le out em] obtain hl' w' where
      d: "lex_draw a hl ?w1 = Some (Inr (hl', w'))" and
      p: "rand_src w' = rand_src w" "heap_src w' = heap_src w" "enough_memory w'"
         "Suc (rand_pos w) < rand_pos w'"
         "\<forall>i. Suc (rand_pos w) \<le> i \<and> i < rand_pos w' - 1 \<longrightarrow>
                  rand_src w i mod range_u64 a + lower a \<in> set hl"
         "rand_src w (rand_pos w' - 1) mod range_u64 a + lower a \<notin> set hl"
         "set hl' = insert (rand_src w (rand_pos w' - 1) mod range_u64 a + lower a) (set hl)"
         "length hl' = Suc (length hl)" "strictly_descending hl'"
      by auto
    have all: "\<forall>i. rand_pos w \<le> i \<and> i < rand_pos w' - 1 \<longrightarrow>
                  rand_src w i mod range_u64 a + lower a \<in> set hl"
    proof (intro allI impI)
      fix i assume i: "rand_pos w \<le> i \<and> i < rand_pos w' - 1"
      show "rand_src w i mod range_u64 a + lower a \<in> set hl"
      proof (cases "i = rand_pos w")
        case True
        with \<open>?v \<in> set hl\<close> show ?thesis by simp
      next
        case False
        with i p(5) show ?thesis by simp
      qed
    qed
    have "lex_draw a hl w = Some (Inr (hl', w'))"
      using ne li r w2 d by (subst lex_draw_step) simp
    with p all show ?thesis by simp
  qed
qed

lemma lex_populate_total:
  assumes fair: "every_residue_recurs rs (range_u64 a)"
    and rg: "range_u64 a = upper a - lower a + 1"
  shows "rand_src w = rs \<Longrightarrow> enough_memory w \<Longrightarrow> strictly_descending hl \<Longrightarrow>
         count = int (length hl) \<Longrightarrow>
         count + int (length ps) \<le> int (unat (upper a - lower a + 1)) \<Longrightarrow>
         count + int (length ps) \<le> INT_MAX \<Longrightarrow>
         \<exists>hl' w'. lex_populate a ps count hl w = Some (Inr (hl', w'))
           \<and> rand_src w' = rs \<and> heap_src w' = heap_src w \<and> enough_memory w'
           \<and> rand_pos w \<le> rand_pos w' \<and> strictly_descending hl'
           \<and> length hl' = length hl + length ps
           \<and> set hl' = set hl \<union>
                 (\<lambda>n. rs n mod range_u64 a + lower a) ` {rand_pos w ..< rand_pos w'}"
proof (induction ps arbitrary: count hl w)
  case Nil
  then show ?case by simp
next
  case (Cons p ps)
  let ?U = "upper a - lower a + 1"
  let ?g = "\<lambda>n. rs n mod range_u64 a + lower a"
  have c0: "0 \<le> count" using Cons.prems(4) by simp
  have lt: "count < INT_MAX" using Cons.prems(6) by simp
  have c1: "count + 1 \<le> int (unat ?U)" using Cons.prems(5) by simp
  with count_check [OF c0 lt, of ?U]
  have nochk: "\<not> (word_of_int count + 1 :: uint64_t) > ?U" by linarith
  from c1 Cons.prems(4) have "length hl < unat ?U" by linarith
  then have len: "length hl < unat (range_u64 a)" by (simp only: rg)
  then have ne: "range_u64 a \<noteq> 0" by auto
  from free_residue_exists [OF len, of "lower a"] obtain v where
    v: "v < range_u64 a" "v + lower a \<notin> set hl" by blast
  from fair v(1) obtain j where j: "rand_pos w \<le> j" "rs j mod range_u64 a = v"
    unfolding every_residue_recurs_def by blast
  with v(2) Cons.prems(1)
  have "rand_src w j mod range_u64 a + lower a \<notin> set hl" by simp
  from lex_draw_total [OF ne Cons.prems(3) j(1) this Cons.prems(2)] Cons.prems(1)
  obtain hl1 w1 where
    d: "lex_draw a hl w = Some (Inr (hl1, w1))" and
    s1: "rand_src w1 = rs" and h1: "heap_src w1 = heap_src w" and m1: "enough_memory w1" and
    p1: "rand_pos w < rand_pos w1" and
    dup: "\<forall>i. rand_pos w \<le> i \<and> i < rand_pos w1 - 1 \<longrightarrow> ?g i \<in> set hl" and
    set1: "set hl1 = insert (?g (rand_pos w1 - 1)) (set hl)" and
    len1: "length hl1 = Suc (length hl)" and desc1: "strictly_descending hl1"
    by auto
  have cnt: "count + 1 = int (length hl1)" using len1 Cons.prems(4) by simp
  have b1: "count + 1 + int (length ps) \<le> int (unat ?U)" using Cons.prems(5) by simp
  have b2: "count + 1 + int (length ps) \<le> INT_MAX" using Cons.prems(6) by simp
  from Cons.IH [OF s1 m1 desc1 cnt b1 b2] obtain hl' w' where
    r: "lex_populate a ps (count + 1) hl1 w1 = Some (Inr (hl', w'))" and
    s: "rand_src w' = rs" and h: "heap_src w' = heap_src w1" and m: "enough_memory w'" and
    p: "rand_pos w1 \<le> rand_pos w'" and desc: "strictly_descending hl'" and
    len': "length hl' = length hl1 + length ps" and
    set': "set hl' = set hl1 \<union> ?g ` {rand_pos w1 ..< rand_pos w'}"
    by blast
  have run: "lex_populate a (p # ps) count hl w = Some (Inr (hl', w'))"
    using d r nochk lt by simp
  have sets: "set hl' = set hl \<union> ?g ` {rand_pos w ..< rand_pos w'}"
  proof (intro set_eqI iffI)
    fix x assume "x \<in> set hl'"
    with set' set1 consider "x \<in> set hl" | "x = ?g (rand_pos w1 - 1)"
      | n where "x = ?g n" "rand_pos w1 \<le> n" "n < rand_pos w'" by auto
    then show "x \<in> set hl \<union> ?g ` {rand_pos w ..< rand_pos w'}"
    proof cases
      case 1
      then show ?thesis by simp
    next
      case 2
      have "rand_pos w1 - 1 \<in> {rand_pos w ..< rand_pos w'}" using p1 p by auto
      with 2 show ?thesis by blast
    next
      case 3
      then have "n \<in> {rand_pos w ..< rand_pos w'}" using p1 by auto
      with 3 show ?thesis by blast
    qed
  next
    fix x assume "x \<in> set hl \<union> ?g ` {rand_pos w ..< rand_pos w'}"
    then consider "x \<in> set hl" | n where "x = ?g n" "rand_pos w \<le> n" "n < rand_pos w'"
      by auto
    then show "x \<in> set hl'"
    proof cases
      case 1
      with set' set1 show ?thesis by simp
    next
      case 2
      consider "n < rand_pos w1 - 1" | "n = rand_pos w1 - 1" | "rand_pos w1 \<le> n" by linarith
      then show ?thesis
      proof cases
        case 1
        with 2 dup have "x \<in> set hl" by simp
        with set' set1 show ?thesis by simp
      next
        case 2
        with \<open>x = ?g n\<close> set' set1 show ?thesis by simp
      next
        case 3
        with 2 have "n \<in> {rand_pos w1 ..< rand_pos w'}" by simp
        with 2 set' show ?thesis by blast
      qed
    qed
  qed
  from run s h h1 m p p1 desc len' len1 sets show ?case by simp
qed

lemma lex_assign_total:
  "enough_memory w \<Longrightarrow> length qs = length ps \<Longrightarrow>
     \<exists>ht' w'. lex_assign ps qs ht w = Inr (ht', w') \<and> enough_memory w'
       \<and> rand_src w' = rand_src w \<and> rand_pos w' = rand_pos w \<and> heap_src w' = heap_src w"
proof (induction ps arbitrary: qs ht w)
  case Nil
  then show ?case by simp
next
  case (Cons p ps)
  from Cons.prems(2) obtain q qs' where qs: "qs = q # qs'" and l: "length qs' = length ps"
    by (cases qs) auto
  let ?w1 = "w\<lparr>heap_pos := Suc (heap_pos w)\<rparr>"
  from malloc_enough [OF Cons.prems(1)] have m: "malloc w = (True, ?w1)" "enough_memory ?w1"
    by simp_all
  from Cons.IH [OF m(2) l, of "ht(p \<mapsto> q)"] obtain ht' w' where
    r: "lex_assign ps qs' (ht(p \<mapsto> q)) ?w1 = Inr (ht', w')" "enough_memory w'"
    "rand_src w' = rand_src ?w1" "rand_pos w' = rand_pos ?w1" "heap_src w' = heap_src ?w1"
    by blast
  have "lex_assign (p # ps) qs ht w = Inr (ht', w')"
    using m(1) qs r(1) by simp
  with r show ?case by simp
qed

lemma finalize_total:
  assumes init: "state a = INIT"
    and rg: "range_u64 a = upper a - lower a + 1"
    and empty: "hash_table a = Map.empty"
    and desc: "strictly_descending (list_u64 a)"
    and fair: "every_residue_recurs (rand_src w) (range_u64 a)"
    and mem: "enough_memory w"
    and fit: "length (list_u64 a) \<le> unat (upper a - lower a + 1)"
    and small: "int (length (list_u64 a)) \<le> INT_MAX"
  shows "\<exists>ht w'. anon_uint64_set_state a LEX w
             = Some (Inr (a\<lparr>state := LEX, hash_table := ht, list_u64 := []\<rparr>, w'))
           \<and> rand_src w' = rand_src w \<and> rand_pos w \<le> rand_pos w' \<and> enough_memory w'
           \<and> card (images_drawn (lower a) (upper a) w w') = length (list_u64 a)
           \<and> (\<forall>k<length (list_u64 a).
                 ht (rev (list_u64 a) ! k)
                   = Some (sorted_list_of_set (images_drawn (lower a) (upper a) w w') ! k))
           \<and> dom ht = set (list_u64 a)"
proof -
  let ?a1 = "a\<lparr>state := LEX\<rparr>"
  let ?ps = "list_u64 a"
  let ?n = "length ?ps"
  have fair1: "every_residue_recurs (rand_src w) (range_u64 ?a1)" using fair by simp
  have rg1: "range_u64 ?a1 = upper ?a1 - lower ?a1 + 1" using rg by simp
  have d0: "strictly_descending []" by (simp add: strictly_descending_def)
  have c0: "(0 :: int) = int (length ([] :: uint64_t list))" by simp
  have sel: "upper ?a1 = upper a" "lower ?a1 = lower a" by simp_all
  have b1: "0 + int ?n \<le> int (unat (upper ?a1 - lower ?a1 + 1))"
    unfolding sel using fit by linarith
  have b2: "0 + int ?n \<le> INT_MAX" using small by simp
  from lex_populate_total [OF fair1 rg1 refl mem d0 c0 b1 b2] obtain hl w1 where
    pop: "lex_populate ?a1 ?ps 0 [] w = Some (Inr (hl, w1))" and
    s1: "rand_src w1 = rand_src w" and m1: "enough_memory w1" and
    p1: "rand_pos w \<le> rand_pos w1" and dhl: "strictly_descending hl" and
    len: "length hl = ?n" and
    sethl: "set hl = (\<lambda>n. rand_src w n mod range_u64 a + lower a) ` {rand_pos w ..< rand_pos w1}"
    by auto
  from lex_assign_total [OF m1 len, of "hash_table a"] obtain ht w' where
    asg: "lex_assign ?ps hl (hash_table a) w1 = Inr (ht, w')" and m': "enough_memory w'" and
    s': "rand_src w' = rand_src w1" and p': "rand_pos w' = rand_pos w1"
    by blast
  have fin: "anon_uint64_set_state a LEX w
               = Some (Inr (a\<lparr>state := LEX, hash_table := ht, list_u64 := []\<rparr>, w'))"
    using init pop asg by (simp add: Let_def)
  have img: "images_drawn (lower a) (upper a) w w' = set hl"
    using sethl p' rg by (simp add: images_drawn_def)
  have card: "card (images_drawn (lower a) (upper a) w w') = ?n"
    using img len distinct_card [OF descending_distinct [OF dhl]] by simp
  have asc: "sorted_list_of_set (images_drawn (lower a) (upper a) w w') = rev hl"
    using ascending_used [OF dhl] img by simp
  note q = lex_assign_result [OF asg]
  have dist: "distinct ?ps" using desc by (rule descending_distinct)
  have pair: "\<forall>i<?n. ht (?ps ! i) = Some (hl ! i)" using q dist by simp
  have tab: "\<forall>k<?n. ht (rev ?ps ! k)
                = Some (sorted_list_of_set (images_drawn (lower a) (upper a) w w') ! k)"
  proof (intro allI impI)
    fix k assume k: "k < ?n"
    then have "?n - Suc k < ?n" by simp
    with pair have "ht (?ps ! (?n - Suc k)) = Some (hl ! (?n - Suc k))" by blast
    with k len show "ht (rev ?ps ! k)
                = Some (sorted_list_of_set (images_drawn (lower a) (upper a) w w') ! k)"
      by (simp add: asc rev_nth)
  qed
  have dom: "dom ht = set ?ps"
  proof
    show "dom ht \<subseteq> set ?ps" using q empty by auto
    show "set ?ps \<subseteq> dom ht"
    proof
      fix u assume "u \<in> set ?ps"
      then obtain i where "i < ?n" "?ps ! i = u" unfolding in_set_conv_nth by blast
      with pair show "u \<in> dom ht" by auto
    qed
  qed
  from fin s' s1 p1 p' m' card tab dom show ?thesis by auto
qed

lemma run_set_used_total:
  "enough_memory w \<Longrightarrow> strictly_descending (list_u64 a) \<Longrightarrow>
     \<exists>l w'. run a w (map Set_used us)
               = Some (Inr (replicate (length us) (Status 0), a\<lparr>list_u64 := l\<rparr>, w'))
        \<and> strictly_descending l \<and> set l = set (list_u64 a) \<union> set us
        \<and> rand_src w' = rand_src w \<and> rand_pos w' = rand_pos w \<and> enough_memory w'"
proof (induction us arbitrary: a w)
  case Nil
  then show ?case by (intro exI [of _ "list_u64 a"] exI [of _ w]) simp
next
  case (Cons u us)
  obtain r l w2 where li: "list_insert (list_u64 a) u w = (r, l, w2)"
    by (cases "list_insert (list_u64 a) u w")
  from list_insert_enough [OF Cons.prems(1) li] have r1: "r \<noteq> - 1" and m2: "enough_memory w2"
    by simp_all
  from list_insert_cases [OF li] r1 have r: "0 \<le> r" and setl: "set l = insert u (set (list_u64 a))"
    by auto
  from list_insert_descending [OF Cons.prems(2) li] have dl: "strictly_descending l" .
  note lw = list_insert_world [OF li]
  have step: "do_call a w (Set_used u) = Some (Inr (Status 0, a\<lparr>list_u64 := l\<rparr>, w2))"
    using li r by (simp add: set_used_result)
  have dl': "strictly_descending (list_u64 (a\<lparr>list_u64 := l\<rparr>))" using dl by simp
  from Cons.IH [OF m2 dl'] obtain l' w' where
    rest: "run (a\<lparr>list_u64 := l\<rparr>) w2 (map Set_used us)
             = Some (Inr (replicate (length us) (Status 0), a\<lparr>list_u64 := l'\<rparr>, w'))" and
    d': "strictly_descending l'" and set': "set l' = set l \<union> set us" and
    s': "rand_src w' = rand_src w2" and p': "rand_pos w' = rand_pos w2" and
    m': "enough_memory w'"
    by auto
  have "run a w (map Set_used (u # us))
          = Some (Inr (replicate (length (u # us)) (Status 0), a\<lparr>list_u64 := l'\<rparr>, w'))"
    using step rest by simp
  moreover have "set l' = set (list_u64 a) \<union> set (u # us)" using set' setl by auto
  ultimately show ?case using d' s' p' m' lw by auto
qed

lemma run_map_lex_LEX:
  "state a = LEX \<Longrightarrow> set xs \<subseteq> dom (hash_table a) \<Longrightarrow>
     run a w (map Map_lex xs) = Some (Inr (map (\<lambda>x. Anum 0 (the (hash_table a x))) xs, a, w))"
proof (induction xs)
  case Nil
  then show ?case by simp
next
  case (Cons x xs)
  from Cons.prems(2) obtain v where v: "hash_table a x = Some v" by auto
  with Cons.prems(1)
  have "do_call a w (Map_lex x) = Some (Inr (Anum 0 v, a, w))"
    by (simp add: anon_uint64_map_lex_def)
  with Cons v show ?case by simp
qed

lemma run_map_lex_first:
  assumes fin: "anon_uint64_set_state a LEX w = Some (Inr (a', w'))"
    and lex: "state a' = LEX" and dom: "set xs \<subseteq> dom (hash_table a')" and ne: "xs \<noteq> []"
  shows "run a w (map Map_lex xs)
           = Some (Inr (map (\<lambda>x. Anum 0 (the (hash_table a' x))) xs, a', w'))"
proof -
  from ne obtain x xs' where xs: "xs = x # xs'" by (cases xs) auto
  with dom obtain v where v: "hash_table a' x = Some v" by auto
  with fin have "do_call a w (Map_lex x) = Some (Inr (Anum 0 v, a', w'))"
    by (simp add: anon_uint64_map_lex_def)
  moreover from dom xs have "set xs' \<subseteq> dom (hash_table a')" by simp
  note run_map_lex_LEX [OF lex this, of w']
  ultimately show ?thesis using xs v by simp
qed

section \<open>The claims of the specification\<close>

text \<open>
  C1 (order preservation in the lex mode). A mapper is created with the bounds \<open>lo\<close>
  and \<open>hi\<close>. First, for any sequence of calls on it that all return: if
  \<^verbatim>\<open>anon_uint64_map_lex\<close> wrote \<open>x'\<close> for \<open>x\<close> and \<open>y'\<close> for \<open>y\<close>, and \<open>x < y\<close>,
  then \<open>x' < y'\<close>. Second, the calls do return: when every residue modulo
  \<open>hi - lo + 1\<close> keeps coming back in the random bytes, every allocation succeeds, and
  the distinct numbers among \<open>us\<close> are at most \<open>hi - lo + 1\<close> and at most
  \<^verbatim>\<open>INT_MAX\<close>, then marking the numbers \<open>us\<close> with \<^verbatim>\<open>anon_uint64_set_used\<close> and
  mapping the numbers \<open>xs\<close>, at least one and all among \<open>us\<close>, with
  \<^verbatim>\<open>anon_uint64_map_lex\<close> returns. Every marking call returns 0 and every mapping
  call returns 0 and writes the entry of the table. The numbers that
  \<^verbatim>\<open>generate_random_number\<close> delivered during these calls are as many distinct
  numbers as there are distinct used numbers; the table pairs the \<open>k\<close>-th smallest
  used number with the \<open>k\<close>-th smallest number delivered, for every \<open>k\<close>, and holds
  nothing else; and of two used numbers the smaller has the smaller image.
\<close>

theorem map_lex_order_preserving:
  assumes new: "anon_uint64_new lo hi w0 = Inr (Some a0, w1)"
  shows "(run a0 w1 cs = Some (Inr (rs, a, w))
            \<and> (Map_lex x, Anum s x') \<in> set (zip cs rs) \<and> (Map_lex y, Anum t y') \<in> set (zip cs rs)
            \<and> x < y \<longrightarrow> x' < y')
         \<and> (every_residue_recurs (rand_src w1) (hi - lo + 1) \<and> enough_memory w1
              \<and> card (set us) \<le> unat (hi - lo + 1) \<and> int (card (set us)) \<le> INT_MAX
              \<and> set xs \<subseteq> set us \<and> xs \<noteq> [] \<longrightarrow>
              (\<exists>a' w'. run a0 w1 (map Set_used us @ map Map_lex xs)
                          = Some (Inr (replicate (length us) (Status 0)
                                         @ map (\<lambda>x. Anum 0 (the (hash_table a' x))) xs, a', w'))
                 \<and> card (images_drawn lo hi w1 w') = card (set us)
                 \<and> (\<forall>k<card (set us).
                       hash_table a' (sorted_list_of_set (set us) ! k)
                         = Some (sorted_list_of_set (images_drawn lo hi w1 w') ! k))
                 \<and> dom (hash_table a') = set us
                 \<and> (\<forall>x\<in>set us. \<forall>y\<in>set us.
                       x < y \<longrightarrow> the (hash_table a' x) < the (hash_table a' y))))"
proof (intro conjI impI)
  from new_well_formed [OF new] have wf0: "well_formed a0" and init0: "state a0 = INIT"
    and lo: "lower a0 = lo" and hi: "upper a0 = hi"
    by simp_all
  {
    assume h: "run a0 w1 cs = Some (Inr (rs, a, w))
            \<and> (Map_lex x, Anum s x') \<in> set (zip cs rs) \<and> (Map_lex y, Anum t y') \<in> set (zip cs rs)
            \<and> x < y"
    then have run: "run a0 w1 cs = Some (Inr (rs, a, w))"
      and px: "(Map_lex x, Anum s x') \<in> set (zip cs rs)"
      and py: "(Map_lex y, Anum t y') \<in> set (zip cs rs)" and lt: "x < y" by simp_all
    from run_well_formed [OF run wf0] have wf: "well_formed a" by simp
    from run_lex_outputs [OF run px] run_lex_outputs [OF run py]
    have "state a = LEX" "hash_table a x = Some x'" "hash_table a y = Some y'" by simp_all
    with wf lt show "x' < y'"
      unfolding well_formed_def order_preserving_def by blast
  }
  {
    assume h: "every_residue_recurs (rand_src w1) (hi - lo + 1) \<and> enough_memory w1
              \<and> card (set us) \<le> unat (hi - lo + 1) \<and> int (card (set us)) \<le> INT_MAX
              \<and> set xs \<subseteq> set us \<and> xs \<noteq> []"
    then have fair: "every_residue_recurs (rand_src w1) (hi - lo + 1)"
      and mem: "enough_memory w1" and fit: "card (set us) \<le> unat (hi - lo + 1)"
      and small: "int (card (set us)) \<le> INT_MAX" and sub: "set xs \<subseteq> set us"
      and ne: "xs \<noteq> []"
      by simp_all
    have l0: "list_u64 a0 = []" and e0: "hash_table a0 = Map.empty"
      and rg0: "range_u64 a0 = hi - lo + 1"
      using new_result [OF new] by simp_all
    have d0: "strictly_descending (list_u64 a0)" using l0 by (simp add: strictly_descending_def)
    from run_set_used_total [OF mem d0, of us] l0 obtain l w2 where
      used: "run a0 w1 (map Set_used us)
               = Some (Inr (replicate (length us) (Status 0), a0\<lparr>list_u64 := l\<rparr>, w2))" and
      dl: "strictly_descending l" and setl: "set l = set us" and
      s2: "rand_src w2 = rand_src w1" and p2: "rand_pos w2 = rand_pos w1" and
      m2: "enough_memory w2"
      by auto
    let ?a1 = "a0\<lparr>list_u64 := l\<rparr>"
    have len: "length l = card (set us)"
      using distinct_card [OF descending_distinct [OF dl]] setl by simp
    have init: "state ?a1 = INIT" using init0 by simp
    have rg: "range_u64 ?a1 = upper ?a1 - lower ?a1 + 1" using rg0 lo hi by simp
    have empty: "hash_table ?a1 = Map.empty" using e0 by simp
    have desc: "strictly_descending (list_u64 ?a1)" using dl by simp
    have fair2: "every_residue_recurs (rand_src w2) (range_u64 ?a1)"
      using fair s2 rg0 by simp
    have fit2: "length (list_u64 ?a1) \<le> unat (upper ?a1 - lower ?a1 + 1)"
      using fit len lo hi by simp
    have small2: "int (length (list_u64 ?a1)) \<le> INT_MAX" using small len by simp
    from finalize_total [OF init rg empty desc fair2 m2 fit2 small2] obtain ht w' where
      fin: "anon_uint64_set_state ?a1 LEX w2
              = Some (Inr (?a1\<lparr>state := LEX, hash_table := ht, list_u64 := []\<rparr>, w'))" and
      card: "card (images_drawn (lower ?a1) (upper ?a1) w2 w') = length (list_u64 ?a1)" and
      tab: "\<forall>k<length (list_u64 ?a1). ht (rev (list_u64 ?a1) ! k)
              = Some (sorted_list_of_set (images_drawn (lower ?a1) (upper ?a1) w2 w') ! k)" and
      dom: "dom ht = set (list_u64 ?a1)"
      by blast
    let ?a' = "?a1\<lparr>state := LEX, hash_table := ht, list_u64 := []\<rparr>"
    have img: "images_drawn (lower ?a1) (upper ?a1) w2 w' = images_drawn lo hi w1 w'"
      using lo hi s2 p2 by (simp add: images_drawn_def)
    have asc: "rev l = sorted_list_of_set (set us)"
      using ascending_used [OF dl] setl by simp
    have lex: "state ?a' = LEX" by simp
    have dom': "dom (hash_table ?a') = set us" using dom setl by simp
    have sub': "set xs \<subseteq> dom (hash_table ?a')" using sub dom' by simp
    note maps = run_map_lex_first [OF fin lex sub' ne]
    have 1: "run a0 w1 (map Set_used us @ map Map_lex xs)
               = Some (Inr (replicate (length us) (Status 0)
                              @ map (\<lambda>x. Anum 0 (the (hash_table ?a' x))) xs, ?a', w'))"
      unfolding run_append using used maps by blast
    have 2: "card (images_drawn lo hi w1 w') = card (set us)"
      using card img len by simp
    have 3: "\<forall>k<card (set us). hash_table ?a' (sorted_list_of_set (set us) ! k)
                = Some (sorted_list_of_set (images_drawn lo hi w1 w') ! k)"
      using tab img len asc by simp
    have op: "order_preserving (hash_table ?a')"
      using fin init desc empty by (rule finalize_order_preserving)
    have 4: "\<forall>x\<in>set us. \<forall>y\<in>set us. x < y \<longrightarrow> the (hash_table ?a' x) < the (hash_table ?a' y)"
    proof (intro ballI impI)
      fix x y assume "x \<in> set us" "y \<in> set us" and lt: "x < y"
      with dom' obtain u v where "hash_table ?a' x = Some u" "hash_table ?a' y = Some v"
        by blast
      with op lt show "the (hash_table ?a' x) < the (hash_table ?a' y)"
        unfolding order_preserving_def by (metis option.sel)
    qed
    from 1 2 3 dom' 4
    show "\<exists>a' w'. run a0 w1 (map Set_used us @ map Map_lex xs)
                          = Some (Inr (replicate (length us) (Status 0)
                                         @ map (\<lambda>x. Anum 0 (the (hash_table a' x))) xs, a', w'))
                 \<and> card (images_drawn lo hi w1 w') = card (set us)
                 \<and> (\<forall>k<card (set us).
                       hash_table a' (sorted_list_of_set (set us) ! k)
                         = Some (sorted_list_of_set (images_drawn lo hi w1 w') ! k))
                 \<and> dom (hash_table a') = set us
                 \<and> (\<forall>x\<in>set us. \<forall>y\<in>set us.
                       x < y \<longrightarrow> the (hash_table a' x) < the (hash_table a' y))"
      by (intro exI [of _ ?a'] exI [of _ w'] conjI)
  }
qed


theorem map_lex_order_preserving_witness:
  "anon_uint64_new 0 9 (initial_world counting plentiful)
     = Inr (Some \<lparr>hash_table = Map.empty, list_u64 = [], state = INIT,
                   lower = 0, upper = 9, range_u64 = 10\<rparr>,
            \<lparr>rand_src = counting, rand_pos = 0, heap_src = plentiful, heap_pos = 1\<rparr>)
   \<and> map_option (map_sum id fst)
        (run \<lparr>hash_table = Map.empty, list_u64 = [], state = INIT,
               lower = 0, upper = 9, range_u64 = 10\<rparr>
             \<lparr>rand_src = counting, rand_pos = 0, heap_src = plentiful, heap_pos = 1\<rparr>
             [Set_used 3, Set_used 8, Map_lex 3, Set_used 1, Map_lex 8])
     = Some (Inr [Status 0, Status 0, Anum 0 0, Status 0, Anum 0 1])
   \<and> (3 :: uint64_t) < 8 \<and> (0 :: uint64_t) < 1
   \<and> every_residue_recurs counting 10
   \<and> enough_memory \<lparr>rand_src = counting, rand_pos = 0, heap_src = plentiful, heap_pos = 1\<rparr>
   \<and> card (set [3, 8, 1 :: uint64_t]) \<le> unat (10 :: uint64_t)
   \<and> int (card (set [3, 8, 1 :: uint64_t])) \<le> INT_MAX
   \<and> set [1, 3, 8 :: uint64_t] \<subseteq> set [3, 8, 1]
   \<and> [1, 3, 8 :: uint64_t] \<noteq> []
   \<and> run \<lparr>hash_table = Map.empty, list_u64 = [], state = INIT,
            lower = 0, upper = 9, range_u64 = 10\<rparr>
          \<lparr>rand_src = counting, rand_pos = 0, heap_src = plentiful, heap_pos = 1\<rparr>
          (map Set_used [3, 8, 1] @ map Map_lex [1, 3, 8])
     = Some (Inr ([Status 0, Status 0, Status 0, Anum 0 0, Anum 0 1, Anum 0 2],
                  \<lparr>hash_table = [8 \<mapsto> 2, 3 \<mapsto> 1, 1 \<mapsto> 0], list_u64 = [], state = LEX,
                    lower = 0, upper = 9, range_u64 = 10\<rparr>,
                  \<lparr>rand_src = counting, rand_pos = 3, heap_src = plentiful, heap_pos = 10\<rparr>))
   \<and> card (images_drawn 0 9
             \<lparr>rand_src = counting, rand_pos = 0, heap_src = plentiful, heap_pos = 1\<rparr>
             \<lparr>rand_src = counting, rand_pos = 3, heap_src = plentiful, heap_pos = 10\<rparr>) = 3
   \<and> map [(8 :: uint64_t) \<mapsto> 2, 3 \<mapsto> 1, 1 \<mapsto> (0 :: uint64_t)]
         (sorted_list_of_set (set [3, 8, 1]))
     = map Some (sorted_list_of_set (images_drawn 0 9
             \<lparr>rand_src = counting, rand_pos = 0, heap_src = plentiful, heap_pos = 1\<rparr>
             \<lparr>rand_src = counting, rand_pos = 3, heap_src = plentiful, heap_pos = 10\<rparr>))
   \<and> dom [(8 :: uint64_t) \<mapsto> 2, 3 \<mapsto> 1, 1 \<mapsto> (0 :: uint64_t)] = set [3, 8, 1 :: uint64_t]
   \<and> the ([(8 :: uint64_t) \<mapsto> 2, 3 \<mapsto> 1, 1 \<mapsto> (0 :: uint64_t)] 3)
       < the ([(8 :: uint64_t) \<mapsto> 2, 3 \<mapsto> 1, 1 \<mapsto> (0 :: uint64_t)] 8)"
proof -
  let ?fresh = "\<lparr>hash_table = Map.empty, list_u64 = [], state = INIT,
                  lower = 0, upper = 9, range_u64 = 10 :: uint64_t\<rparr>"
  let ?final = "\<lparr>hash_table = [8 \<mapsto> 2, 3 \<mapsto> 1, 1 \<mapsto> 0], list_u64 = [], state = LEX,
                  lower = 0, upper = 9, range_u64 = 10 :: uint64_t\<rparr>"
  let ?w1 = "\<lparr>rand_src = counting, rand_pos = 0, heap_src = plentiful, heap_pos = 1\<rparr>"
  let ?w2 = "\<lparr>rand_src = counting, rand_pos = 3, heap_src = plentiful, heap_pos = 10\<rparr>"
  let ?cs = "[Set_used 3, Set_used 8, Map_lex 3, Set_used 1, Map_lex 8]"
  let ?rs = "[Status 0, Status 0, Anum 0 0, Status 0, Anum 0 1]"
  let ?us = "[3, 8, 1 :: uint64_t]"
  let ?xs = "[1, 3, 8 :: uint64_t]"
  let ?I = "images_drawn 0 9 ?w1 ?w2"
  have n: "anon_uint64_new 0 9 (initial_world counting plentiful) = Inr (Some ?fresh, ?w1)"
    by (simp add: anon_uint64_new_def malloc_def initial_world_def plentiful_def)
  have r: "map_option (map_sum id fst) (run ?fresh ?w1 ?cs) = Some (Inr ?rs)"
    by code_simp
  then obtain a w where r': "run ?fresh ?w1 ?cs = Some (Inr (?rs, a, w))"
    by (cases "run ?fresh ?w1 ?cs") (auto simp: map_sum_def split: sum.splits)
  have x: "(Map_lex 3, Anum 0 0) \<in> set (zip ?cs ?rs)" by simp
  have y: "(Map_lex 8, Anum 0 1) \<in> set (zip ?cs ?rs)" by simp
  have lt: "(3 :: uint64_t) < 8" by simp
  from map_lex_order_preserving [OF n, where cs = ?cs and rs = ?rs and a = a and w = w
      and x = 3 and s = 0 and x' = 0 and y = 8 and t = 0 and y' = 1] r' x y lt
  have o: "(0 :: uint64_t) < 1" by blast
  have h1: "every_residue_recurs counting 10" by (rule counting_recurs)
  have h2: "enough_memory ?w1" by (simp add: enough_memory_def plentiful_def)
  have h3: "card (set ?us) \<le> unat (10 :: uint64_t)" by simp
  have h4: "int (card (set ?us)) \<le> INT_MAX" by (simp add: INT_MAX_def)
  have h5: "set ?xs \<subseteq> set ?us" by simp
  have h6: "?xs \<noteq> []" by simp
  have f: "run ?fresh ?w1 (map Set_used ?us @ map Map_lex ?xs)
             = Some (Inr ([Status 0, Status 0, Status 0, Anum 0 0, Anum 0 1, Anum 0 2],
                          ?final, ?w2))"
    by (simp add: anon_uint64_set_used_def anon_uint64_map_lex_def malloc_def plentiful_def
          lex_draw_step counting_def INT_MAX_def)
  have h1': "every_residue_recurs (rand_src ?w1) (9 - 0 + 1)" using h1 by simp
  have h3': "card (set ?us) \<le> unat (9 - 0 + 1 :: uint64_t)" by simp
  have "\<exists>a' w'. run ?fresh ?w1 (map Set_used ?us @ map Map_lex ?xs)
          = Some (Inr (replicate (length ?us) (Status 0)
                         @ map (\<lambda>x. Anum 0 (the (hash_table a' x))) ?xs, a', w'))
      \<and> card (images_drawn 0 9 ?w1 w') = card (set ?us)
      \<and> (\<forall>k<card (set ?us). hash_table a' (sorted_list_of_set (set ?us) ! k)
          = Some (sorted_list_of_set (images_drawn 0 9 ?w1 w') ! k))
      \<and> dom (hash_table a') = set ?us
      \<and> (\<forall>x\<in>set ?us. \<forall>y\<in>set ?us. x < y \<longrightarrow> the (hash_table a' x) < the (hash_table a' y))"
    by (rule map_lex_order_preserving [OF n, where us = ?us and xs = ?xs,
          THEN conjunct2, THEN mp])
       (intro conjI h1' h2 h3' h4 h5 h6)
  then obtain a' w' where
    all: "run ?fresh ?w1 (map Set_used ?us @ map Map_lex ?xs)
          = Some (Inr (replicate (length ?us) (Status 0)
                         @ map (\<lambda>x. Anum 0 (the (hash_table a' x))) ?xs, a', w'))
      \<and> card (images_drawn 0 9 ?w1 w') = card (set ?us)
      \<and> (\<forall>k<card (set ?us). hash_table a' (sorted_list_of_set (set ?us) ! k)
          = Some (sorted_list_of_set (images_drawn 0 9 ?w1 w') ! k))
      \<and> dom (hash_table a') = set ?us
      \<and> (\<forall>x\<in>set ?us. \<forall>y\<in>set ?us. x < y \<longrightarrow> the (hash_table a' x) < the (hash_table a' y))"
    by (elim exE)
  note e = all [THEN conjunct1]
  note c = all [THEN conjunct2, THEN conjunct1]
  note p = all [THEN conjunct2, THEN conjunct2, THEN conjunct1]
  note d = all [THEN conjunct2, THEN conjunct2, THEN conjunct2, THEN conjunct1]
  note m = all [THEN conjunct2, THEN conjunct2, THEN conjunct2, THEN conjunct2]
  from e f have a': "a' = ?final" and w': "w' = ?w2" by simp_all
  have c3: "card (set ?us) = 3" by simp
  have c': "card ?I = 3" using c c3 unfolding w' by simp
  have fin: "finite ?I" using c' by (simp add: card_ge_0_finite)
  have len: "length (sorted_list_of_set ?I) = 3" using c' by simp
  have len': "length (sorted_list_of_set (set ?us)) = 3" using c3 by simp
  have p': "map [(8 :: uint64_t) \<mapsto> 2, 3 \<mapsto> 1, 1 \<mapsto> (0 :: uint64_t)]
              (sorted_list_of_set (set ?us)) = map Some (sorted_list_of_set ?I)"
  proof (rule nth_equalityI)
    show "length (map [(8 :: uint64_t) \<mapsto> 2, 3 \<mapsto> 1, 1 \<mapsto> (0 :: uint64_t)]
              (sorted_list_of_set (set ?us))) = length (map Some (sorted_list_of_set ?I))"
      using len len' by (simp only: length_map)
  next
    fix k
    assume "k < length (map [(8 :: uint64_t) \<mapsto> 2, 3 \<mapsto> 1, 1 \<mapsto> (0 :: uint64_t)]
              (sorted_list_of_set (set ?us)))"
    then have k: "k < 3" using len' by (simp only: length_map)
    with p [unfolded a' w' c3] have "hash_table ?final (sorted_list_of_set (set ?us) ! k)
          = Some (sorted_list_of_set ?I ! k)" by blast
    then have "[(8 :: uint64_t) \<mapsto> 2, 3 \<mapsto> 1, 1 \<mapsto> (0 :: uint64_t)]
                 (sorted_list_of_set (set ?us) ! k) = Some (sorted_list_of_set ?I ! k)"
      by (simp only: anon_uint64.select_convs)
    with k len len' show "map [(8 :: uint64_t) \<mapsto> 2, 3 \<mapsto> 1, 1 \<mapsto> (0 :: uint64_t)]
              (sorted_list_of_set (set ?us)) ! k = map Some (sorted_list_of_set ?I) ! k"
      by (simp only: nth_map)
  qed
  have d': "dom [(8 :: uint64_t) \<mapsto> 2, 3 \<mapsto> 1, 1 \<mapsto> (0 :: uint64_t)] = set ?us"
    using d unfolding a' by (simp only: anon_uint64.select_convs)
  have "(3 :: uint64_t) \<in> set ?us" "(8 :: uint64_t) \<in> set ?us" by simp_all
  with m lt have "the (hash_table a' 3) < the (hash_table a' 8)" by blast
  then have m': "the ([(8 :: uint64_t) \<mapsto> 2, 3 \<mapsto> 1, 1 \<mapsto> (0 :: uint64_t)] 3)
       < the ([(8 :: uint64_t) \<mapsto> 2, 3 \<mapsto> 1, 1 \<mapsto> (0 :: uint64_t)] 8)"
    unfolding a' by (simp only: anon_uint64.select_convs)
  show ?thesis
    apply (intro conjI)
                  apply (rule n)
                 apply (rule r)
                apply (rule lt)
               apply (rule o)
              apply (rule h1)
             apply (rule h2)
            apply (rule h3)
           apply (rule h4)
          apply (rule h5)
         apply (rule h6)
        apply (rule f)
       apply (rule c')
      apply (rule p')
     apply (rule d')
    apply (rule m')
    done
qed

text \<open>
  C2 (determinism under a key). \<^verbatim>\<open>anon_uint64_set_key\<close> does nothing, and the images
  come from \<^verbatim>\<open>RAND_bytes\<close>. Two mappers made one after the other in one process, both
  given the same key and both asked to map 5, answer differently as soon as the
  generator delivers different bytes to them.
\<close>

theorem same_key_different_outputs:
  "anon_uint64_new 0 99 (initial_world counting plentiful)
     = Inr (Some \<lparr>hash_table = Map.empty, list_u64 = [], state = INIT,
                   lower = 0, upper = 99, range_u64 = 100\<rparr>,
            \<lparr>rand_src = counting, rand_pos = 0, heap_src = plentiful, heap_pos = 1\<rparr>)
   \<and> map_option (map_sum id (\<lambda>(rs, a, w). (rs, rand_pos w, heap_pos w)))
       (run (anon_uint64_set_key
               \<lparr>hash_table = Map.empty, list_u64 = [], state = INIT,
                 lower = 0, upper = 99, range_u64 = 100\<rparr> ''passphrase'')
            \<lparr>rand_src = counting, rand_pos = 0, heap_src = plentiful, heap_pos = 1\<rparr>
            [Map 5])
     = Some (Inr ([Anum 0 0], 1, 3))
   \<and> anon_uint64_new 0 99
       \<lparr>rand_src = counting, rand_pos = 1, heap_src = plentiful, heap_pos = 3\<rparr>
     = Inr (Some \<lparr>hash_table = Map.empty, list_u64 = [], state = INIT,
                   lower = 0, upper = 99, range_u64 = 100\<rparr>,
            \<lparr>rand_src = counting, rand_pos = 1, heap_src = plentiful, heap_pos = 4\<rparr>)
   \<and> map_option (map_sum id (\<lambda>(rs, a, w). (rs, rand_pos w, heap_pos w)))
       (run (anon_uint64_set_key
               \<lparr>hash_table = Map.empty, list_u64 = [], state = INIT,
                 lower = 0, upper = 99, range_u64 = 100\<rparr> ''passphrase'')
            \<lparr>rand_src = counting, rand_pos = 1, heap_src = plentiful, heap_pos = 4\<rparr>
            [Map 5])
     = Some (Inr ([Anum 0 1], 2, 6))
   \<and> [Anum 0 0] \<noteq> [Anum 0 1]"
proof -
  have 1: "anon_uint64_new 0 99 (initial_world counting plentiful)
     = Inr (Some \<lparr>hash_table = Map.empty, list_u64 = [], state = INIT,
                   lower = 0, upper = 99, range_u64 = 100\<rparr>,
            \<lparr>rand_src = counting, rand_pos = 0, heap_src = plentiful, heap_pos = 1\<rparr>)"
    by (simp add: anon_uint64_new_def malloc_def initial_world_def plentiful_def)
  have 2: "map_option (map_sum id (\<lambda>(rs, a, w). (rs, rand_pos w, heap_pos w)))
       (run (anon_uint64_set_key
               \<lparr>hash_table = Map.empty, list_u64 = [], state = INIT,
                 lower = 0, upper = 99, range_u64 = 100\<rparr> ''passphrase'')
            \<lparr>rand_src = counting, rand_pos = 0, heap_src = plentiful, heap_pos = 1\<rparr>
            [Map 5])
     = Some (Inr ([Anum 0 0], 1, 3))"
    by code_simp
  have 3: "anon_uint64_new 0 99
       \<lparr>rand_src = counting, rand_pos = 1, heap_src = plentiful, heap_pos = 3\<rparr>
     = Inr (Some \<lparr>hash_table = Map.empty, list_u64 = [], state = INIT,
                   lower = 0, upper = 99, range_u64 = 100\<rparr>,
            \<lparr>rand_src = counting, rand_pos = 1, heap_src = plentiful, heap_pos = 4\<rparr>)"
    by (simp add: anon_uint64_new_def malloc_def plentiful_def)
  have 4: "map_option (map_sum id (\<lambda>(rs, a, w). (rs, rand_pos w, heap_pos w)))
       (run (anon_uint64_set_key
               \<lparr>hash_table = Map.empty, list_u64 = [], state = INIT,
                 lower = 0, upper = 99, range_u64 = 100\<rparr> ''passphrase'')
            \<lparr>rand_src = counting, rand_pos = 1, heap_src = plentiful, heap_pos = 4\<rparr>
            [Map 5])
     = Some (Inr ([Anum 0 1], 2, 6))"
    by code_simp
  from 1 2 3 4 show ?thesis by simp
qed

text \<open>
  C2, amended. The key has no influence, and the world matters through its future only:
  two mappers that start from the same object, are configured with any two keys and are
  presented the same calls in the same order, in worlds where \<^verbatim>\<open>RAND_bytes\<close> delivers
  the same bytes and \<^verbatim>\<open>malloc\<close> the same outcomes from then on, give the same replies
  (and stop with the same error, or both do not return).
\<close>

theorem outputs_determined_by_random_bytes:
  assumes "same_future w v"
  shows "map_option (map_sum id fst) (run (anon_uint64_set_key a key1) w cs)
         = map_option (map_sum id fst) (run (anon_uint64_set_key a key2) v cs)"
  using same_future_run [OF assms, of a cs]
  by (cases rule: alike_cases) (simp_all add: anon_uint64_set_key_def)

theorem outputs_determined_by_random_bytes_witness:
  "same_future
     \<lparr>rand_src = counting, rand_pos = 0, heap_src = plentiful, heap_pos = 1\<rparr>
     \<lparr>rand_src = (\<lambda>n. counting (n - 3)), rand_pos = 3, heap_src = plentiful, heap_pos = 7\<rparr>
   \<and> map_option (map_sum id fst)
       (run (anon_uint64_set_key
               \<lparr>hash_table = Map.empty, list_u64 = [], state = INIT,
                 lower = 0, upper = 99, range_u64 = 100\<rparr> ''alpha'')
            \<lparr>rand_src = counting, rand_pos = 0, heap_src = plentiful, heap_pos = 1\<rparr>
            [Map 5, Map 5, Map 7])
     = Some (Inr [Anum 0 0, Anum 0 0, Anum 0 1])
   \<and> map_option (map_sum id fst)
       (run (anon_uint64_set_key
               \<lparr>hash_table = Map.empty, list_u64 = [], state = INIT,
                 lower = 0, upper = 99, range_u64 = 100\<rparr> ''beta'')
            \<lparr>rand_src = (\<lambda>n. counting (n - 3)), rand_pos = 3, heap_src = plentiful,
              heap_pos = 7\<rparr>
            [Map 5, Map 5, Map 7])
     = Some (Inr [Anum 0 0, Anum 0 0, Anum 0 1])"
proof -
  let ?fresh = "\<lparr>hash_table = Map.empty, list_u64 = [], state = INIT,
                  lower = 0, upper = 99, range_u64 = 100 :: uint64_t\<rparr>"
  let ?w = "\<lparr>rand_src = counting, rand_pos = 0, heap_src = plentiful, heap_pos = 1\<rparr>"
  let ?v = "\<lparr>rand_src = (\<lambda>n. counting (n - 3)), rand_pos = 3, heap_src = plentiful,
              heap_pos = 7\<rparr>"
  have sf: "same_future ?w ?v" by (simp add: same_future_def plentiful_def)
  have l: "map_option (map_sum id fst)
       (run (anon_uint64_set_key ?fresh ''alpha'') ?w [Map 5, Map 5, Map 7])
     = Some (Inr [Anum 0 0, Anum 0 0, Anum 0 1])"
    by code_simp
  from outputs_determined_by_random_bytes [OF sf, of ?fresh "''alpha''" "[Map 5, Map 5, Map 7]"
      "''beta''"] l
  have "map_option (map_sum id fst)
       (run (anon_uint64_set_key ?fresh ''beta'') ?v [Map 5, Map 5, Map 7])
     = Some (Inr [Anum 0 0, Anum 0 0, Anum 0 1])"
    by simp
  with sf l show ?thesis by simp
qed

text \<open>
  C3 (mode lock). After \<^verbatim>\<open>anon_uint64_map\<close>, a call of \<^verbatim>\<open>anon_uint64_map_lex\<close> stops
  the process at the assertion on the state, and so does \<^verbatim>\<open>anon_uint64_map\<close> after
  \<^verbatim>\<open>anon_uint64_map_lex\<close>. But \<^verbatim>\<open>anon_uint64_set_used\<close> after either mapping returns
  0: the \<^verbatim>\<open>INIT\<close> case of \<^verbatim>\<open>anon_uint64_set_state\<close> has no assertion, and the number
  is inserted into the list (which, after \<^verbatim>\<open>anon_uint64_map\<close>, is the list of the images
  handed out).
\<close>

theorem set_used_after_map_returns_0:
  "map_option (map_sum id (\<lambda>(rs, a, w). (rs, list_u64 a, state a)))
     (run \<lparr>hash_table = Map.empty, list_u64 = [], state = INIT,
            lower = 0, upper = 9, range_u64 = 10\<rparr>
          (initial_world counting plentiful) [Map 5, Set_used 7])
     = Some (Inr ([Anum 0 0, Status 0], [7, 0], NON_LEX))
   \<and> map_option (map_sum id (\<lambda>(rs, a, w). (rs, list_u64 a, state a)))
     (run \<lparr>hash_table = Map.empty, list_u64 = [], state = INIT,
            lower = 0, upper = 9, range_u64 = 10\<rparr>
          (initial_world counting plentiful) [Set_used 5, Map_lex 5, Set_used 7])
     = Some (Inr ([Status 0, Anum 0 0, Status 0], [7], LEX))
   \<and> map_option (map_sum id fst)
     (run \<lparr>hash_table = Map.empty, list_u64 = [], state = INIT,
            lower = 0, upper = 9, range_u64 = 10\<rparr>
          (initial_world counting plentiful) [Map 5, Map_lex 5])
     = Some (Inl Mode_conflict)
   \<and> map_option (map_sum id fst)
     (run \<lparr>hash_table = Map.empty, list_u64 = [], state = INIT,
            lower = 0, upper = 9, range_u64 = 10\<rparr>
          (initial_world counting plentiful) [Set_used 5, Map_lex 5, Map 5])
     = Some (Inl Mode_conflict)"
  by code_simp

text \<open>
  C4 (range exhaustion in \<^verbatim>\<open>anon_uint64_map\<close>). A mapper with \<open>lower = upper = 0\<close> has one
  image to give. The first new number gets it; for the second new number the loop of
  \<^verbatim>\<open>anon_uint64_map\<close> draws 0 again and again and never returns, whatever the random bytes:
  nothing compares the number of images handed out with \<^verbatim>\<open>range\<close>.
\<close>

theorem map_stalls_when_range_exhausted:
  "anon_uint64_new 0 0 (initial_world rs plentiful)
     = Inr (Some \<lparr>hash_table = Map.empty, list_u64 = [], state = INIT,
                   lower = 0, upper = 0, range_u64 = 1\<rparr>,
            \<lparr>rand_src = rs, rand_pos = 0, heap_src = plentiful, heap_pos = 1\<rparr>)
   \<and> run \<lparr>hash_table = Map.empty, list_u64 = [], state = INIT,
            lower = 0, upper = 0, range_u64 = 1\<rparr>
          \<lparr>rand_src = rs, rand_pos = 0, heap_src = plentiful, heap_pos = 1\<rparr>
          [Map 5]
     = Some (Inr ([Anum 0 0],
                  \<lparr>hash_table = [5 \<mapsto> 0], list_u64 = [0], state = NON_LEX,
                    lower = 0, upper = 0, range_u64 = 1\<rparr>,
                  \<lparr>rand_src = rs, rand_pos = 1, heap_src = plentiful, heap_pos = 3\<rparr>))
   \<and> run \<lparr>hash_table = Map.empty, list_u64 = [], state = INIT,
            lower = 0, upper = 0, range_u64 = 1\<rparr>
          \<lparr>rand_src = rs, rand_pos = 0, heap_src = plentiful, heap_pos = 1\<rparr>
          [Map 5, Map 7]
     = None"
proof -
  let ?fresh = "\<lparr>hash_table = Map.empty, list_u64 = [], state = INIT,
                  lower = 0, upper = 0, range_u64 = 1 :: uint64_t\<rparr>"
  let ?full = "\<lparr>hash_table = [5 \<mapsto> 0], list_u64 = [0], state = NON_LEX,
                 lower = 0, upper = 0, range_u64 = 1 :: uint64_t\<rparr>"
  let ?w = "\<lambda>i j. \<lparr>rand_src = rs, rand_pos = i, heap_src = plentiful, heap_pos = j\<rparr>"
  have n: "anon_uint64_new 0 0 (initial_world rs plentiful) = Inr (Some ?fresh, ?w 0 1)"
    by (simp add: anon_uint64_new_def malloc_def initial_world_def plentiful_def)
  have first: "do_call ?fresh (?w 0 1) (Map 5) = Some (Inr (Anum 0 0, ?full, ?w 1 3))"
    by (simp add: map_unfold map_draw_step malloc_def plentiful_def)
  have "map_draw ?full (?w 1 3) = None"
    by (rule map_draw_stalls) (simp_all add: strictly_descending_def)
  then have second: "do_call ?full (?w 1 3) (Map 7) = None"
    by (simp add: map_unfold)
  from n first second show ?thesis by simp
qed

text \<open>
  C5 (the file argument of \<^verbatim>\<open>anon uint64\<close>). Called as
  \<^verbatim>\<open>anon uint64 -l 0 9 ids.txt\<close>, the command opens the file named by its second
  argument, \<^verbatim>\<open>9\<close>: it fails when only \<^verbatim>\<open>ids.txt\<close> exists, and it anonymizes the
  numbers of a file called \<^verbatim>\<open>9\<close> when there is one, never reading \<^verbatim>\<open>ids.txt\<close>.
\<close>

theorem cmd_uint64_opens_second_argument:
  "cmd_uint64 True [''0'', ''9'', ''ids.txt''] [''ids.txt'' \<mapsto> ''3\<newline>8\<newline>1\<newline>'']
     (initial_world counting plentiful)
     = Some (Inl (Cannot_open ''9''))
   \<and> cmd_uint64 True [''0'', ''9'', ''ids.txt'']
       [''ids.txt'' \<mapsto> ''3\<newline>8\<newline>1\<newline>'', ''9'' \<mapsto> ''4\<newline>2\<newline>'']
       (initial_world counting plentiful)
     = Some (Inr [1, 0])"
  by code_simp

text \<open>
  C6 (range containment). A mapper is created with \<open>lower \<le> upper\<close>; after any sequence
  of calls that all return, every number written by \<^verbatim>\<open>anon_uint64_map\<close> or
  \<^verbatim>\<open>anon_uint64_map_lex\<close> lies in the interval from \<open>lower\<close> to \<open>upper\<close>, ends
  included.
\<close>

theorem range_containment:
  assumes "anon_uint64_new lo hi w0 = Inr (Some a0, w1)"
    and "run a0 w1 cs = Some (Inr (rs, a, w))"
    and "Anum s v \<in> set rs"
  shows "lo \<le> v \<and> v \<le> hi"
  using run_outputs_bounded [OF assms(2) _ assms(3)] new_well_formed [OF assms(1)]
  by simp

theorem range_containment_witness:
  "anon_uint64_new 0 99 (initial_world counting plentiful)
     = Inr (Some \<lparr>hash_table = Map.empty, list_u64 = [], state = INIT,
                   lower = 0, upper = 99, range_u64 = 100\<rparr>,
            \<lparr>rand_src = counting, rand_pos = 0, heap_src = plentiful, heap_pos = 1\<rparr>)
   \<and> map_option (map_sum id fst)
        (run \<lparr>hash_table = Map.empty, list_u64 = [], state = INIT,
               lower = 0, upper = 99, range_u64 = 100\<rparr>
             \<lparr>rand_src = counting, rand_pos = 0, heap_src = plentiful, heap_pos = 1\<rparr>
             [Map 5, Map 5, Map 7])
     = Some (Inr [Anum 0 0, Anum 0 0, Anum 0 1])
   \<and> (0 :: uint64_t) \<le> 1 \<and> (1 :: uint64_t) \<le> 99"
proof -
  let ?a0 = "\<lparr>hash_table = Map.empty, list_u64 = [], state = INIT,
               lower = 0, upper = 99, range_u64 = 100 :: uint64_t\<rparr>"
  let ?w1 = "\<lparr>rand_src = counting, rand_pos = 0, heap_src = plentiful, heap_pos = 1\<rparr>"
  have n: "anon_uint64_new 0 99 (initial_world counting plentiful) = Inr (Some ?a0, ?w1)"
    by (simp add: anon_uint64_new_def malloc_def initial_world_def plentiful_def)
  have r: "map_option (map_sum id fst) (run ?a0 ?w1 [Map 5, Map 5, Map 7])
             = Some (Inr [Anum 0 0, Anum 0 0, Anum 0 1])"
    by code_simp
  then obtain a w where r': "run ?a0 ?w1 [Map 5, Map 5, Map 7]
      = Some (Inr ([Anum 0 0, Anum 0 0, Anum 0 1], a, w))"
    by (cases "run ?a0 ?w1 [Map 5, Map 5, Map 7]") (auto simp: map_sum_def split: sum.splits)
  from range_containment [OF n r', of 0 1] n r show ?thesis by simp
qed

text \<open>
  C7 (more used numbers than images). A mapper is created, numbers are marked with
  \<^verbatim>\<open>anon_uint64_set_used\<close> (every call returning 0), and the number of distinct marked
  numbers exceeds \<^verbatim>\<open>upper - lower + 1\<close>. Then the first \<^verbatim>\<open>anon_uint64_map_lex\<close> never
  returns a mapping; and when the random source keeps delivering every residue (so that
  the drawing of distinct images always ends) and the range is below \<^verbatim>\<open>INT_MAX\<close>, it
  stops the process at the assertion after "more numbers to anonymize than could be
  fitted in the range".
\<close>

theorem lex_finalization_fails_when_too_many:
  assumes new: "anon_uint64_new lo hi w0 = Inr (Some a0, w1)"
    and used: "run a0 w1 (map Set_used us) = Some (Inr (rs, a, w))"
    and ok: "\<forall>r\<in>set rs. r = Status 0"
    and many: "unat (hi - lo + 1) < card (set us)"
  shows "(\<forall>res. anon_uint64_map_lex a num w \<noteq> Some (Inr res))
         \<and> (every_residue_recurs (rand_src w) (hi - lo + 1)
              \<and> int (unat (hi - lo + 1)) < INT_MAX
            \<longrightarrow> anon_uint64_map_lex a num w = Some (Inl Too_many_numbers))"
proof -
  note n = new_well_formed [OF new]
  then have wf0: "well_formed a0" by simp
  note wf = run_well_formed [OF used wf0]
  note su = run_set_used [OF used]
  have init: "state a = INIT" using su n by simp
  have lo: "lower a = lo" and hi: "upper a = hi" using wf n by simp_all
  have rg: "range_u64 a = upper a - lower a + 1" using wf by (simp add: well_formed_def)
  have "list_u64 a0 = []" using new_result [OF new] by simp
  with su ok have "set (list_u64 a) = set us" by simp
  moreover have "distinct (list_u64 a)"
    using wf by (simp add: well_formed_def descending_distinct)
  ultimately have len: "length (list_u64 a) = card (set us)"
    using distinct_card by fastforce
  let ?a1 = "a\<lparr>state := LEX\<rparr>"
  have 1: "\<forall>res. anon_uint64_map_lex a num w \<noteq> Some (Inr res)"
  proof (intro allI notI)
    fix res assume "anon_uint64_map_lex a num w = Some (Inr res)"
    then obtain s v a' w' where "anon_uint64_map_lex a num w = Some (Inr ((s, v), a', w'))"
      by (cases res) auto
    from map_lex_result [OF this]
    have "anon_uint64_set_state a LEX w = Some (Inr (a', w'))" by simp
    from set_state_LEX_first [OF this init] obtain hl w2 where
      "lex_populate ?a1 (list_u64 a) 0 [] w = Some (Inr (hl, w2))" by blast
    from lex_populate_count [OF this] have
      "int (length (list_u64 a)) \<le> int (unat (upper a - lower a + 1))"
      by (simp add: INT_MAX_def)
    then have "length (list_u64 a) \<le> unat (upper a - lower a + 1)"
      by (simp only: of_nat_le_iff)
    with many len lo hi show False by simp
  qed
  have 2: "anon_uint64_map_lex a num w = Some (Inl Too_many_numbers)"
    if fair: "every_residue_recurs (rand_src w) (hi - lo + 1)"
      and small: "int (unat (hi - lo + 1)) < INT_MAX"
  proof -
    from many len lo hi have "unat (upper a - lower a + 1) < length (list_u64 a)" by simp
    then have m': "int (unat (upper a - lower a + 1)) < 0 + int (length (list_u64 a))"
      by (simp only: add_0 of_nat_less_iff)
    have "lex_populate ?a1 (list_u64 a) 0 [] w = Some (Inl Too_many_numbers)"
    proof (rule lex_populate_too_many [where rs = "rand_src w"])
      show "every_residue_recurs (rand_src w) (range_u64 ?a1)" using fair rg lo hi by simp
      show "range_u64 ?a1 = upper ?a1 - lower ?a1 + 1" using rg by simp
      show "int (unat (upper ?a1 - lower ?a1 + 1)) < INT_MAX" using small lo hi by simp
      show "int (unat (upper ?a1 - lower ?a1 + 1)) < 0 + int (length (list_u64 a))"
        using m' by simp
    qed simp_all
    then have "anon_uint64_set_state a LEX w = Some (Inl Too_many_numbers)"
      using init by simp
    then show ?thesis by (simp add: anon_uint64_map_lex_def)
  qed
  from 1 2 show ?thesis by blast
qed

theorem lex_finalization_fails_when_too_many_witness:
  "anon_uint64_new 0 9 (initial_world counting plentiful)
     = Inr (Some \<lparr>hash_table = Map.empty, list_u64 = [], state = INIT,
                   lower = 0, upper = 9, range_u64 = 10\<rparr>,
            \<lparr>rand_src = counting, rand_pos = 0, heap_src = plentiful, heap_pos = 1\<rparr>)
   \<and> run \<lparr>hash_table = Map.empty, list_u64 = [], state = INIT,
            lower = 0, upper = 9, range_u64 = 10\<rparr>
          \<lparr>rand_src = counting, rand_pos = 0, heap_src = plentiful, heap_pos = 1\<rparr>
          (map Set_used [0, 1, 2, 3, 4, 5, 6, 7, 8, 9, 10])
     = Some (Inr ([Status 0, Status 0, Status 0, Status 0, Status 0, Status 0, Status 0, Status 0,
                   Status 0, Status 0, Status 0],
                  \<lparr>hash_table = Map.empty, list_u64 = [10, 9, 8, 7, 6, 5, 4, 3, 2, 1, 0],
                    state = INIT, lower = 0, upper = 9, range_u64 = 10\<rparr>,
                  \<lparr>rand_src = counting, rand_pos = 0, heap_src = plentiful, heap_pos = 12\<rparr>))
   \<and> unat (9 - 0 + 1 :: uint64_t) < card (set [0, 1, 2, 3, 4, 5, 6, 7, 8, 9, 10 :: uint64_t])
   \<and> every_residue_recurs counting (9 - 0 + 1)
   \<and> int (unat (9 - 0 + 1 :: uint64_t)) < INT_MAX
   \<and> anon_uint64_map_lex
         \<lparr>hash_table = Map.empty, list_u64 = [10, 9, 8, 7, 6, 5, 4, 3, 2, 1, 0],
           state = INIT, lower = 0, upper = 9, range_u64 = 10\<rparr> 0
         \<lparr>rand_src = counting, rand_pos = 0, heap_src = plentiful, heap_pos = 12\<rparr>
     = Some (Inl Too_many_numbers)"
proof -
  let ?fresh = "\<lparr>hash_table = Map.empty, list_u64 = [], state = INIT,
                  lower = 0, upper = 9, range_u64 = 10 :: uint64_t\<rparr>"
  let ?used = "\<lparr>hash_table = Map.empty, list_u64 = [10, 9, 8, 7, 6, 5, 4, 3, 2, 1, 0],
                 state = INIT, lower = 0, upper = 9, range_u64 = 10 :: uint64_t\<rparr>"
  let ?w = "\<lambda>n. \<lparr>rand_src = counting, rand_pos = 0, heap_src = plentiful, heap_pos = n\<rparr>"
  let ?us = "[0, 1, 2, 3, 4, 5, 6, 7, 8, 9, 10 :: uint64_t]"
  have n: "anon_uint64_new 0 9 (initial_world counting plentiful) = Inr (Some ?fresh, ?w 1)"
    by (simp add: anon_uint64_new_def malloc_def initial_world_def plentiful_def)
  have r: "run ?fresh (?w 1) (map Set_used ?us)
             = Some (Inr ([Status 0, Status 0, Status 0, Status 0, Status 0, Status 0, Status 0, Status 0,
                   Status 0, Status 0, Status 0], ?used, ?w 12))"
    by (simp add: anon_uint64_set_used_def malloc_def plentiful_def)
  have ok: "\<forall>r\<in>set ([Status 0, Status 0, Status 0, Status 0, Status 0, Status 0, Status 0, Status 0,
                   Status 0, Status 0, Status 0]). r = Status 0" by simp
  have "card (set ?us) = 11" by code_simp
  then have c: "unat (9 - 0 + 1 :: uint64_t) < card (set ?us)" by simp
  have f: "every_residue_recurs (rand_src (?w 12)) (9 - 0 + 1)"
    by (simp add: counting_recurs)
  have s: "int (unat (9 - 0 + 1 :: uint64_t)) < INT_MAX" by (simp add: INT_MAX_def)
  from lex_finalization_fails_when_too_many [OF n r ok c, of 0] f s
  have "anon_uint64_map_lex ?used 0 (?w 12) = Some (Inl Too_many_numbers)" by blast
  with n r c f s show ?thesis by simp
qed



text \<open>
  C9 (the modulus is not zero). With \<open>lower = 0\<close> and \<open>upper = 2\<^sup>6\<^sup>4 - 1\<close> the assertion
  \<^verbatim>\<open>lower <= upper\<close> holds, \<^verbatim>\<open>upper - lower + 1\<close> wraps around to 0, and the first
  \<^verbatim>\<open>anon_uint64_map\<close> of the new mapper reduces modulo zero, whatever the random bytes
  and the number to map.
\<close>

theorem range_wraps_to_zero:
  "anon_uint64_new 0 18446744073709551615 (initial_world rs plentiful)
     = Inr (Some \<lparr>hash_table = Map.empty, list_u64 = [], state = INIT,
                   lower = 0, upper = 18446744073709551615, range_u64 = 0\<rparr>,
            \<lparr>rand_src = rs, rand_pos = 0, heap_src = plentiful, heap_pos = 1\<rparr>)
   \<and> anon_uint64_map \<lparr>hash_table = Map.empty, list_u64 = [], state = INIT,
                       lower = 0, upper = 18446744073709551615, range_u64 = 0\<rparr>
         num \<lparr>rand_src = rs, rand_pos = 0, heap_src = plentiful, heap_pos = 1\<rparr>
     = Some (Inl Division_by_zero)"
proof -
  have "anon_uint64_new 0 18446744073709551615 (initial_world rs plentiful)
     = Inr (Some \<lparr>hash_table = Map.empty, list_u64 = [], state = INIT,
                   lower = 0, upper = 18446744073709551615, range_u64 = 0\<rparr>,
            \<lparr>rand_src = rs, rand_pos = 0, heap_src = plentiful, heap_pos = 1\<rparr>)"
    by (simp add: anon_uint64_new_def malloc_def initial_world_def plentiful_def)
  moreover have "anon_uint64_map \<lparr>hash_table = Map.empty, list_u64 = [], state = INIT,
                       lower = 0, upper = 18446744073709551615, range_u64 = 0\<rparr>
         num \<lparr>rand_src = rs, rand_pos = 0, heap_src = plentiful, heap_pos = 1\<rparr>
     = Some (Inl Division_by_zero)"
    by (simp add: map_unfold map_draw_step)
  ultimately show ?thesis by simp
qed

text \<open>
  C10 (the list invariant). In every state a mapper reaches from \<^verbatim>\<open>anon_uint64_new\<close>
  by calls that return, \<^verbatim>\<open>a->list\<close> is strictly descending (so it has no duplicates),
  and an insertion into it keeps it so, returns 1 exactly when the number is already in
  the list (the list and the allocator are then untouched), returns 0 when the number
  was added, and returns -1 exactly when the number is new and the allocation fails.
\<close>

theorem list_sorted_invariant:
  assumes "anon_uint64_new lo hi w0 = Inr (Some a0, w1)"
    and "run a0 w1 cs = Some (Inr (rs, a, w))"
    and "list_insert (list_u64 a) num w2 = (r, ys, w3)"
  shows "strictly_descending (list_u64 a) \<and> strictly_descending ys
         \<and> (r = 1 \<or> r = 0 \<or> r = - 1)
         \<and> (r = 1 \<longleftrightarrow> num \<in> set (list_u64 a))
         \<and> (r = 1 \<longrightarrow> ys = list_u64 a \<and> w3 = w2)
         \<and> (r = 0 \<longrightarrow> set ys = insert num (set (list_u64 a)))
         \<and> (r = - 1 \<longleftrightarrow> num \<notin> set (list_u64 a) \<and> malloc w2 = (False, w3))
         \<and> (r = - 1 \<longrightarrow> ys = list_u64 a)"
proof -
  from new_well_formed [OF assms(1)] have "well_formed a0" by simp
  from run_well_formed [OF assms(2) this] have "well_formed a" by simp
  then have d: "strictly_descending (list_u64 a)" by (simp add: well_formed_def)
  note c = list_insert_cases [OF assms(3)]
  note p = list_insert_present [OF d, of num w2]
  have d': "strictly_descending ys" by (rule list_insert_descending [OF d assms(3)])
  have 1: "r = 1 \<longleftrightarrow> num \<in> set (list_u64 a)" using c p assms(3) by auto
  have 2: "r = - 1 \<longleftrightarrow> num \<notin> set (list_u64 a) \<and> malloc w2 = (False, w3)"
    using c p assms(3) by auto
  from d d' c 1 2 show ?thesis by auto
qed

theorem list_sorted_invariant_witness:
  "anon_uint64_new 0 9 (initial_world counting plentiful)
     = Inr (Some \<lparr>hash_table = Map.empty, list_u64 = [], state = INIT,
                   lower = 0, upper = 9, range_u64 = 10\<rparr>,
            \<lparr>rand_src = counting, rand_pos = 0, heap_src = plentiful, heap_pos = 1\<rparr>)
   \<and> run \<lparr>hash_table = Map.empty, list_u64 = [], state = INIT,
            lower = 0, upper = 9, range_u64 = 10\<rparr>
          \<lparr>rand_src = counting, rand_pos = 0, heap_src = plentiful, heap_pos = 1\<rparr>
          [Set_used 3, Set_used 8, Set_used 1]
     = Some (Inr ([Status 0, Status 0, Status 0],
                  \<lparr>hash_table = Map.empty, list_u64 = [8, 3, 1], state = INIT,
                    lower = 0, upper = 9, range_u64 = 10\<rparr>,
                  \<lparr>rand_src = counting, rand_pos = 0, heap_src = plentiful, heap_pos = 4\<rparr>))
   \<and> list_insert [8, 3, 1] 5
         \<lparr>rand_src = counting, rand_pos = 0, heap_src = plentiful, heap_pos = 4\<rparr>
     = (0, [8, 5, 3, 1],
        \<lparr>rand_src = counting, rand_pos = 0, heap_src = plentiful, heap_pos = 5\<rparr>)
   \<and> strictly_descending [8, 3, 1] \<and> strictly_descending [8, 5, 3, 1]
   \<and> (5 :: uint64_t) \<notin> set [8, 3, 1]"
proof -
  let ?fresh = "\<lparr>hash_table = Map.empty, list_u64 = [], state = INIT,
               lower = 0, upper = 9, range_u64 = 10 :: uint64_t\<rparr>"
  let ?used = "\<lparr>hash_table = Map.empty, list_u64 = [8, 3, 1], state = INIT,
               lower = 0, upper = 9, range_u64 = 10 :: uint64_t\<rparr>"
  let ?w = "\<lambda>n. \<lparr>rand_src = counting, rand_pos = 0, heap_src = plentiful, heap_pos = n\<rparr>"
  have n: "anon_uint64_new 0 9 (initial_world counting plentiful) = Inr (Some ?fresh, ?w 1)"
    by (simp add: anon_uint64_new_def malloc_def initial_world_def plentiful_def)
  have r: "run ?fresh (?w 1) [Set_used 3, Set_used 8, Set_used 1]
             = Some (Inr ([Status 0, Status 0, Status 0], ?used, ?w 4))"
    by (simp add: anon_uint64_set_used_def malloc_def plentiful_def)
  have i: "list_insert (list_u64 ?used) 5 (?w 4) = (0, [8, 5, 3, 1], ?w 5)"
    by (simp add: malloc_def plentiful_def)
  from list_sorted_invariant [OF n r i] n r i show ?thesis by simp
qed

end
